theory Spec2Isabelle
  imports Complex_Main "HOL-Library.Char_ord" "HOL-Library.List_Lexorder" "HOL-Library.Multiset"
begin

section \<open>JavaScript primitives used by the workers\<close>

text \<open>
  Numbers are modelled as unbounded integers: every number the workers handle is a page
  number, a worker id or a millisecond timestamp, far below \<open>2^53\<close>, where JavaScript
  numbers are exact integers. A value read from Redis is \<open>None\<close> for a missing key and
  \<open>Some s\<close> for the stored text; \<open>if (str)\<close> in the source is true for a present,
  non-empty text.
\<close>

definition truthy :: "string option \<Rightarrow> bool" where
  "truthy v = (case v of None \<Rightarrow> False | Some s \<Rightarrow> s \<noteq> [])"

definition isWhiteSpace :: "char \<Rightarrow> bool" where
  "isWhiteSpace c = (of_char c \<in> {9, 10, 11, 12, 13, 32 :: nat})"

definition isDigit :: "char \<Rightarrow> bool" where
  "isDigit c = (48 \<le> (of_char c :: nat) \<and> (of_char c :: nat) \<le> 57)"

definition digitVal :: "char \<Rightarrow> int" where
  "digitVal c = int (of_char c) - 48"

text \<open>
  \<open>parseInt(s, 10)\<close>: leading white space is skipped, one sign is accepted, the longest
  run of decimal digits is read and anything after it is ignored; \<open>NaN\<close> (here \<open>None\<close>)
  when there is no digit. A comparison with \<open>NaN\<close> is false, and \<open>isNaN\<close> is the case
  \<open>None\<close>. Of the white space characters only the ASCII ones (tab, line feed, vertical
  tab, form feed, carriage return, space) are modelled.
\<close>

definition parseInt :: "string \<Rightarrow> int option" where
  "parseInt s =
     (let t = dropWhile isWhiteSpace s;
          neg = (case t of c # _ \<Rightarrow> c = CHR ''-'' | [] \<Rightarrow> False);
          u = (case t of c # r \<Rightarrow> if c = CHR ''-'' \<or> c = CHR ''+'' then r else t | [] \<Rightarrow> []);
          ds = takeWhile isDigit u
      in if ds = [] then None
         else Some ((if neg then - 1 else 1) * foldl (\<lambda>a c. a * 10 + digitVal c) 0 ds))"

fun digits :: "nat \<Rightarrow> string" where
  "digits n = (if n < 10 then [char_of (48 + n)] else digits (n div 10) @ [char_of (48 + n mod 10)])"

declare digits.simps [simp del]

text \<open>\<open>n.toString()\<close> of an integer.\<close>

definition toString :: "int \<Rightarrow> string" where
  "toString n = (if n < 0 then CHR ''-'' # digits (nat (- n)) else digits (nat n))"

text \<open>\<open>Math.ceil(a / b)\<close> for integers \<open>a\<close> and \<open>b > 0\<close>.\<close>

definition ceilDiv :: "int \<Rightarrow> int \<Rightarrow> int" where
  "ceilDiv a b = - ((- a) div b)"

text \<open>
  \<open>Array.prototype.sort()\<close> without a comparator orders the elements by their texts,
  code unit by code unit.
\<close>

definition jsSort :: "int list \<Rightarrow> int list" where
  "jsSort xs = sort_key toString xs"

section \<open>The Redis key space\<close>

text \<open>
  One field per key (family) of \<open>shared/src/queue/index.ts\<close>, named as the constant
  without its \<open>REDIS_KEY_\<close> prefix. Keys that hold JSON are modelled by the value the JSON
  text denotes: \<open>GENERAL_WORKER_PAGES\<close> holds \<open>{start, end}\<close>, \<open>WORKER_PAGES\<close> an array of
  page numbers. All other values are texts.
\<close>

datatype workerType = Manager | General | Product

record redis =
  TOTAL_PAGES :: "string option"
  GENERAL_WORKER_HEARTBEAT :: "nat \<Rightarrow> string option"
  GENERAL_WORKER_PAGES :: "nat \<Rightarrow> (int \<times> int) option"
  GENERAL_WORKER_COMPLETE :: "nat \<Rightarrow> string option"
  GENERAL_WORKER_PROCESSING :: "nat \<Rightarrow> string option"
  ROTATION_INDEX :: "string option"
  LAST_ASSIGNED_PAGE :: "string option"
  WORKER_LOCK :: "workerType \<Rightarrow> nat \<Rightarrow> string option"
  WORKER_HEARTBEAT :: "nat \<Rightarrow> string option"
  WORKER_PAGES :: "nat \<Rightarrow> int list option"
  WORKER_COMPLETE :: "nat \<Rightarrow> string option"
  CRAWL_TRIGGER :: "string option"
  TABS_READY :: "string option"

definition emptyRedis :: redis where
  "emptyRedis =
     \<lparr>TOTAL_PAGES = None, GENERAL_WORKER_HEARTBEAT = (\<lambda>_. None),
      GENERAL_WORKER_PAGES = (\<lambda>_. None), GENERAL_WORKER_COMPLETE = (\<lambda>_. None),
      GENERAL_WORKER_PROCESSING = (\<lambda>_. None), ROTATION_INDEX = None,
      LAST_ASSIGNED_PAGE = None, WORKER_LOCK = (\<lambda>_ _. None),
      WORKER_HEARTBEAT = (\<lambda>_. None), WORKER_PAGES = (\<lambda>_. None),
      WORKER_COMPLETE = (\<lambda>_. None), CRAWL_TRIGGER = None, TABS_READY = None\<rparr>"

record config =
  ENABLE_ROUND_ROBIN_ROTATION :: bool
  ROTATION_BATCH_SIZE :: int

section \<open>Manager worker (\<open>manager-worker/src/index.ts\<close>)\<close>

definition HEARTBEAT_TIMEOUT_MS :: int where
  "HEARTBEAT_TIMEOUT_MS = 60000"

text \<open>The test of one heartbeat key, shared by both liveness scans.\<close>

definition heartbeatActive :: "int \<Rightarrow> string option \<Rightarrow> bool" where
  "heartbeatActive now heartbeatStr =
     (case heartbeatStr of
        None \<Rightarrow> False
      | Some s \<Rightarrow> s \<noteq> [] \<and>
          (case parseInt s of
             None \<Rightarrow> False
           | Some heartbeatTime \<Rightarrow> now - heartbeatTime < HEARTBEAT_TIMEOUT_MS))"

definition detectActiveGeneralWorkers :: "int \<Rightarrow> redis \<Rightarrow> nat list" where
  "detectActiveGeneralWorkers now r =
     sort (filter (\<lambda>workerId. heartbeatActive now (GENERAL_WORKER_HEARTBEAT r workerId)) [1..<21])"

text \<open>The loop of \<open>distributePagesEvenly\<close>, from index \<open>i\<close> on.\<close>

fun evenLoop :: "int \<Rightarrow> int \<Rightarrow> int \<Rightarrow> nat list \<Rightarrow> redis \<Rightarrow> redis" where
  "evenLoop totalPages pagesPerWorker i [] r = r"
| "evenLoop totalPages pagesPerWorker i (workerId # rest) r =
     (let startPage = i * pagesPerWorker + 1;
          endPage = min ((i + 1) * pagesPerWorker) totalPages
      in evenLoop totalPages pagesPerWorker (i + 1) rest
           (r\<lparr>GENERAL_WORKER_PAGES := (GENERAL_WORKER_PAGES r)(workerId \<mapsto> (startPage, endPage)),
              GENERAL_WORKER_COMPLETE := (GENERAL_WORKER_COMPLETE r)(workerId := None)\<rparr>))"

definition distributePagesEvenly :: "int \<Rightarrow> int \<Rightarrow> redis \<Rightarrow> redis" where
  "distributePagesEvenly now totalPages r =
     (let activeWorkers = detectActiveGeneralWorkers now r
      in if length activeWorkers = 0 then r
         else evenLoop totalPages (ceilDiv totalPages (int (length activeWorkers))) 0 activeWorkers r)"

text \<open>
  Reading one of the two rotation counters: the number used, and whether the key is
  overwritten with \<open>"0"\<close> because its text is not a non-negative number.
\<close>

definition readCounter :: "string option \<Rightarrow> int \<times> bool" where
  "readCounter str =
     (case str of
        None \<Rightarrow> (0, False)
      | Some s \<Rightarrow>
          if s = [] then (0, False)
          else (case parseInt s of
                  None \<Rightarrow> (0, True)
                | Some parsed \<Rightarrow> if parsed \<ge> 0 then (parsed, False) else (0, True)))"

fun clearWorkers :: "nat list \<Rightarrow> redis \<Rightarrow> redis" where
  "clearWorkers [] r = r"
| "clearWorkers (workerId # rest) r =
     clearWorkers rest
       (r\<lparr>GENERAL_WORKER_COMPLETE := (GENERAL_WORKER_COMPLETE r)(workerId := None),
          GENERAL_WORKER_PAGES := (GENERAL_WORKER_PAGES r)(workerId := None)\<rparr>)"

definition distributePagesRoundRobin :: "config \<Rightarrow> int \<Rightarrow> int \<Rightarrow> redis \<Rightarrow> redis" where
  "distributePagesRoundRobin cfg now totalPages r0 =
     (let activeWorkers = detectActiveGeneralWorkers now r0
      in if length activeWorkers = 0 then r0
         else
           let rotationIndexStr = ROTATION_INDEX r0;
               lastAssignedPageStr = LAST_ASSIGNED_PAGE r0;
               rotationIndex1 = fst (readCounter rotationIndexStr);
               r1 = (if snd (readCounter rotationIndexStr) then r0\<lparr>ROTATION_INDEX := Some ''0''\<rparr> else r0);
               outOfBounds = (rotationIndex1 \<ge> int (length activeWorkers));
               rotationIndex = (if outOfBounds then 0 else rotationIndex1);
               r2 = (if outOfBounds then r1\<lparr>ROTATION_INDEX := Some ''0''\<rparr> else r1);
               lastAssignedPage = fst (readCounter lastAssignedPageStr);
               r3 = (if snd (readCounter lastAssignedPageStr) then r2\<lparr>LAST_ASSIGNED_PAGE := Some ''0''\<rparr> else r2)
           in if lastAssignedPage \<ge> totalPages
              then clearWorkers activeWorkers
                     (r3\<lparr>ROTATION_INDEX := Some ''0'', LAST_ASSIGNED_PAGE := Some ''0''\<rparr>)
              else
                let workerId = activeWorkers ! nat (rotationIndex mod int (length activeWorkers));
                    batchSize = ROTATION_BATCH_SIZE cfg;
                    startPage = lastAssignedPage + 1;
                    endPage = min (startPage + batchSize - 1) totalPages
                in if startPage > totalPages then r3
                   else
                     let nextRotationIndex = (rotationIndex + 1) mod int (length activeWorkers)
                     in r3\<lparr>GENERAL_WORKER_PAGES := (GENERAL_WORKER_PAGES r3)(workerId \<mapsto> (startPage, endPage)),
                           GENERAL_WORKER_COMPLETE := (GENERAL_WORKER_COMPLETE r3)(workerId := None),
                           ROTATION_INDEX := Some (toString nextRotationIndex),
                           LAST_ASSIGNED_PAGE := Some (toString endPage)\<rparr>)"

definition distributePagesToGeneralWorkers :: "config \<Rightarrow> int \<Rightarrow> int \<Rightarrow> redis \<Rightarrow> redis" where
  "distributePagesToGeneralWorkers cfg now totalPages r =
     (if ENABLE_ROUND_ROBIN_ROTATION cfg then distributePagesRoundRobin cfg now totalPages r
      else distributePagesEvenly now totalPages r)"

text \<open>The even-mode scan of \<open>checkAndAssignWork\<close>, with its \<open>break\<close> and \<open>continue\<close>.\<close>

fun evenNeedsAssignment :: "redis \<Rightarrow> int \<Rightarrow> nat list \<Rightarrow> bool" where
  "evenNeedsAssignment r totalPages [] = False"
| "evenNeedsAssignment r totalPages (workerId # rest) =
     (case GENERAL_WORKER_PAGES r workerId of
        None \<Rightarrow> True
      | Some pageRange \<Rightarrow>
          if GENERAL_WORKER_PROCESSING r workerId = Some ''1''
          then evenNeedsAssignment r totalPages rest
          else if GENERAL_WORKER_COMPLETE r workerId = Some ''1'' \<and> snd pageRange < totalPages then True
          else evenNeedsAssignment r totalPages rest)"

definition rotationNeedsAssignment :: "redis \<Rightarrow> int \<Rightarrow> nat list \<Rightarrow> bool" where
  "rotationNeedsAssignment r totalPages activeWorkers =
     (let lastAssignedPage = fst (readCounter (LAST_ASSIGNED_PAGE r))
      in list_ex (\<lambda>workerId. GENERAL_WORKER_COMPLETE r workerId = Some ''1''
                    \<and> lastAssignedPage < totalPages) activeWorkers
         \<or> list_ex (\<lambda>workerId. GENERAL_WORKER_PAGES r workerId = None) activeWorkers)"

text \<open>
  One manager tick. \<open>now\<close> is the clock read by the tick's own liveness scan, \<open>now'\<close> the
  one read by the scan inside the distribution it may call.
\<close>

definition checkAndAssignWork :: "config \<Rightarrow> int \<Rightarrow> int \<Rightarrow> redis \<Rightarrow> redis" where
  "checkAndAssignWork cfg now now' r =
     (case TOTAL_PAGES r of
        None \<Rightarrow> r
      | Some totalPagesStr \<Rightarrow>
          if totalPagesStr = [] then r
          else (case parseInt totalPagesStr of
                  None \<Rightarrow> r
                | Some totalPages \<Rightarrow>
                    if totalPages \<le> 0 then r
                    else
                      let activeWorkers = detectActiveGeneralWorkers now r
                      in if length activeWorkers = 0 then r
                         else
                           let needsAssignment =
                                 (if ENABLE_ROUND_ROBIN_ROTATION cfg
                                  then rotationNeedsAssignment r totalPages activeWorkers
                                  else evenNeedsAssignment r totalPages activeWorkers)
                           in if needsAssignment
                              then distributePagesToGeneralWorkers cfg now' totalPages r
                              else r))"

section \<open>General worker (\<open>general-worker/src/index.ts\<close>)\<close>

definition detectActiveWorkers :: "int \<Rightarrow> redis \<Rightarrow> nat list" where
  "detectActiveWorkers now r =
     sort (filter (\<lambda>workerId. heartbeatActive now (WORKER_HEARTBEAT r workerId)) [1..<21])"

text \<open>
  \<open>checkForDuplicateWorker\<close> talks to Redis twice, with a \<open>GET\<close> and then a \<open>SET\<close>, and
  another process may run between the two. Each call is one step; a process is at its
  \<open>GET\<close>, at its \<open>SET\<close>, or has returned \<open>hasDuplicate\<close>. The step takes the clock it reads.
  The \<open>SET\<close> has neither \<open>NX\<close> nor a time to live.
\<close>

datatype dupCheck = AtGet | AtSet | Returned bool

fun checkStep :: "nat \<Rightarrow> int \<Rightarrow> dupCheck \<times> redis \<Rightarrow> dupCheck \<times> redis" where
  "checkStep workerId now (AtGet, r) =
     (case WORKER_LOCK r General workerId of
        None \<Rightarrow> (AtSet, r)
      | Some existingLock \<Rightarrow>
          if existingLock = [] then (AtSet, r)
          else (case parseInt existingLock of
                  None \<Rightarrow> (AtSet, r)
                | Some lockTime \<Rightarrow> if now - lockTime < 30000 then (Returned True, r) else (AtSet, r)))"
| "checkStep workerId now (AtSet, r) =
     (Returned False,
      r\<lparr>WORKER_LOCK := (WORKER_LOCK r)(General := (WORKER_LOCK r General)(workerId \<mapsto> toString now))\<rparr>)"
| "checkStep workerId now (Returned b, r) = (Returned b, r)"

text \<open>The call when nothing else touches Redis in between.\<close>

definition checkForDuplicateWorker :: "nat \<Rightarrow> int \<Rightarrow> int \<Rightarrow> redis \<Rightarrow> dupCheck \<times> redis" where
  "checkForDuplicateWorker workerId now now' r =
     checkStep workerId now' (checkStep workerId now (AtGet, r))"

text \<open>
  Two processes started with the same worker id; the schedule says which of them makes
  its next Redis call, and at what clock.
\<close>

datatype process = First | Second

fun interleave :: "nat \<Rightarrow> (process \<times> int) list \<Rightarrow> dupCheck \<times> dupCheck \<times> redis
    \<Rightarrow> dupCheck \<times> dupCheck \<times> redis" where
  "interleave workerId [] c = c"
| "interleave workerId ((First, now) # sched) (p, q, r) =
     (case checkStep workerId now (p, r) of (p', r') \<Rightarrow> interleave workerId sched (p', q, r'))"
| "interleave workerId ((Second, now) # sched) (p, q, r) =
     (case checkStep workerId now (q, r) of (q', r') \<Rightarrow> interleave workerId sched (p, q', r'))"

definition isBusy :: "redis \<Rightarrow> nat \<Rightarrow> bool" where
  "isBusy r workerId =
     (case WORKER_PAGES r workerId of None \<Rightarrow> False | Some pages \<Rightarrow> length pages > 0)"

text \<open>The loop that hands the removed pages to the idle workers, from index \<open>i\<close> on.\<close>

fun giveLoop :: "int list \<Rightarrow> nat \<Rightarrow> nat \<Rightarrow> nat list \<Rightarrow> redis \<Rightarrow> redis" where
  "giveLoop reassignPages pagesPerIdleWorker i [] r = r"
| "giveLoop reassignPages pagesPerIdleWorker i (idleWorker # rest) r =
     (let startIdx = i * pagesPerIdleWorker;
          endIdx = min (startIdx + pagesPerIdleWorker) (length reassignPages);
          pagesForWorker = take (endIdx - startIdx) (drop startIdx reassignPages)
      in giveLoop reassignPages pagesPerIdleWorker (i + 1) rest
           (if length pagesForWorker > 0
            then r\<lparr>WORKER_PAGES := (WORKER_PAGES r)(idleWorker \<mapsto> pagesForWorker)\<rparr>
            else r))"

definition reassignPagesFromIdleWorkers :: "nat list \<Rightarrow> redis \<Rightarrow> redis" where
  "reassignPagesFromIdleWorkers activeWorkers r =
     (let busyWorkers = filter (isBusy r) activeWorkers;
          idleWorkers = filter (\<lambda>workerId. \<not> isBusy r workerId) activeWorkers
      in if length idleWorkers > 0 \<and> length busyWorkers > 0
         then (case busyWorkers of
                 [] \<Rightarrow> r
               | busiestWorkerId # _ \<Rightarrow>
                   (case WORKER_PAGES r busiestWorkerId of
                      None \<Rightarrow> r
                    | Some pages \<Rightarrow>
                        if length pages > 1
                        then
                          let half = nat (ceilDiv (int (length pages)) 2);
                              reassignPages = drop half pages;
                              keepPages = take half pages;
                              r1 = r\<lparr>WORKER_PAGES := (WORKER_PAGES r)(busiestWorkerId \<mapsto> keepPages)\<rparr>;
                              pagesPerIdleWorker =
                                nat (ceilDiv (int (length reassignPages)) (int (length idleWorkers)))
                          in giveLoop reassignPages pagesPerIdleWorker 0 idleWorkers r1
                        else r))
         else r)"

text \<open>The page list a worker's key denotes; a missing key is an empty list.\<close>

definition pagesOf :: "redis \<Rightarrow> nat \<Rightarrow> int list" where
  "pagesOf r workerId = (case WORKER_PAGES r workerId of None \<Rightarrow> [] | Some pages \<Rightarrow> pages)"

section \<open>Product worker (\<open>product-worker/src/index.ts\<close>)\<close>

text \<open>
  Of a product record only the identifier, the page number and two texts are kept. The
  table is the list of stored rows, at most one per \<open>asin\<close>; every call to the database
  layer is also appended to a log, so that the order of the calls can be stated. Redis
  and the database are taken to answer every call; the failures that the code handles
  are those of the browser (no tab, extraction throws) and of a single upsert.
\<close>

record product =
  asin :: string
  url :: string
  title :: string
  pageNumber :: int

datatype crawlStatus = Success | Failed

datatype dbCall =
    GetProductsByPage int
  | DeleteProductsByPageNumber int
  | UpsertProduct product
  | RecordCrawlEvent string crawlStatus

definition getProductsByPage :: "product list \<Rightarrow> int \<Rightarrow> product list" where
  "getProductsByPage table n = filter (\<lambda>p. pageNumber p = n) table"

definition deleteProductsByPageNumber :: "product list \<Rightarrow> int \<Rightarrow> product list" where
  "deleteProductsByPageNumber table n = filter (\<lambda>p. pageNumber p \<noteq> n) table"

definition upsertProduct :: "product list \<Rightarrow> product \<Rightarrow> product list" where
  "upsertProduct table p =
     (if list_ex (\<lambda>q. asin q = asin p) table
      then map (\<lambda>q. if asin q = asin p then p else q) table
      else table @ [p])"

text \<open>
  What the browser offers for a page number: no open tab, a tab whose extraction throws,
  or a tab and the products extracted from it.
\<close>

datatype tabOutcome = NoTab | ExtractionThrows | Extracted "product list"

record browserEnv =
  hasContext :: bool
  tabFor :: "int \<Rightarrow> tabOutcome"
  upsertThrows :: "product \<Rightarrow> bool"

record workerState =
  redisOf :: redis
  productTable :: "product list"
  dbCalls :: "dbCall list"

definition asinsChanged :: "product list \<Rightarrow> product list \<Rightarrow> bool" where
  "asinsChanged existingProducts products =
     (let existingAsins = set (map asin existingProducts);
          newAsins = set (map asin products)
      in card existingAsins \<noteq> card newAsins \<or> \<not> (\<forall>a \<in> newAsins. a \<in> existingAsins))"

text \<open>
  \<open>recordCrawlEvent\<close> first makes sure that a row with the event's identifier exists:
  for a non-empty identifier that is not stored it inserts a row with the title
  \<open>"Pending crawl"\<close>. This is its effect on the product table.
\<close>

definition recordCrawlEvent :: "product list \<Rightarrow> product \<Rightarrow> product list" where
  "recordCrawlEvent table p =
     (if asin p \<noteq> [] \<and> \<not> list_ex (\<lambda>q. asin q = asin p) table
      then table @ [\<lparr>asin = asin p, url = url p, title = ''Pending crawl'', pageNumber = pageNumber p\<rparr>]
      else table)"

fun storeProducts :: "browserEnv \<Rightarrow> product list \<Rightarrow> workerState \<Rightarrow> workerState" where
  "storeProducts env [] st = st"
| "storeProducts env (p # rest) st =
     storeProducts env rest
       (if upsertThrows env p
        then st\<lparr>productTable := recordCrawlEvent (productTable st) p,
                dbCalls := dbCalls st @ [UpsertProduct p, RecordCrawlEvent (asin p) Failed]\<rparr>
        else st\<lparr>productTable := recordCrawlEvent (upsertProduct (productTable st) p) p,
                dbCalls := dbCalls st @ [UpsertProduct p, RecordCrawlEvent (asin p) Success]\<rparr>)"

text \<open>A page whose tab was found and extracted: compare, delete, store, shift.\<close>

definition processExtracted ::
    "browserEnv \<Rightarrow> nat \<Rightarrow> int \<Rightarrow> product list \<Rightarrow> int list \<Rightarrow> workerState \<Rightarrow> int list \<times> workerState" where
  "processExtracted env workerId pageNum products pagesToProcess st =
     (let existingProducts = getProductsByPage (productTable st) pageNum;
          st1 = st\<lparr>dbCalls := dbCalls st @ [GetProductsByPage pageNum]\<rparr>;
          st2 = (if asinsChanged existingProducts products
                 then st1\<lparr>productTable := deleteProductsByPageNumber (productTable st1) pageNum,
                          dbCalls := dbCalls st1 @ [DeleteProductsByPageNumber pageNum]\<rparr>
                 else st1);
          st3 = storeProducts env products st2;
          shifted = tl pagesToProcess
      in (shifted,
          st3\<lparr>redisOf := (redisOf st3)\<lparr>WORKER_PAGES := (WORKER_PAGES (redisOf st3))(workerId \<mapsto> shifted)\<rparr>\<rparr>))"

definition maxRetries :: nat where
  "maxRetries = 3"

function retryLoop ::
    "browserEnv \<Rightarrow> nat \<Rightarrow> int \<Rightarrow> nat \<Rightarrow> int list \<Rightarrow> workerState \<Rightarrow> int list \<times> workerState" where
  "retryLoop env workerId pageNum retryCount pagesToProcess st =
     (if retryCount \<le> maxRetries
      then (case tabFor env pageNum of
              NoTab \<Rightarrow> (pagesToProcess, st)
            | ExtractionThrows \<Rightarrow>
                if retryCount < maxRetries
                then retryLoop env workerId pageNum (retryCount + 1) pagesToProcess st
                else (pagesToProcess, st)
            | Extracted products \<Rightarrow> processExtracted env workerId pageNum products pagesToProcess st)
      else (pagesToProcess, st))"
  by pat_completeness auto
termination
  by (relation "measure (\<lambda>(env, workerId, pageNum, retryCount, pagesToProcess, st). maxRetries - retryCount)") auto

declare retryLoop.simps [simp del]

text \<open>
  The re-read of the worker's own list at the head of every round of the outer loop.
  The two \<open>sort()\<close> calls of the comparison sort both arrays in place, and run only when
  the lengths agree.
\<close>

definition syncPages :: "redis \<Rightarrow> nat \<Rightarrow> int list \<Rightarrow> int list" where
  "syncPages r workerId pagesToProcess =
     (case WORKER_PAGES r workerId of
        None \<Rightarrow> pagesToProcess
      | Some updatedPages \<Rightarrow>
          if length updatedPages \<noteq> length pagesToProcess then updatedPages
          else if jsSort updatedPages \<noteq> jsSort pagesToProcess then jsSort updatedPages
          else jsSort pagesToProcess)"

text \<open>
  The outer \<open>while (pagesToProcess.length > 0)\<close> loop. It has no bound in the source, so
  the model counts rounds: \<open>None\<close> says that the loop is still running when the rounds
  allowed are used up.
\<close>

fun crawlLoop ::
    "nat \<Rightarrow> browserEnv \<Rightarrow> nat \<Rightarrow> int list \<Rightarrow> workerState \<Rightarrow> (int list \<times> workerState) option" where
  "crawlLoop rounds env workerId pagesToProcess st =
     (if length pagesToProcess > 0
      then (case rounds of
              0 \<Rightarrow> None
            | Suc rounds' \<Rightarrow>
                (case syncPages (redisOf st) workerId pagesToProcess of
                   [] \<Rightarrow> Some ([], st)
                 | pageNum # others \<Rightarrow>
                     (case retryLoop env workerId pageNum 0 (pageNum # others) st of
                        (pagesToProcess', st') \<Rightarrow> crawlLoop rounds' env workerId pagesToProcess' st')))
      else Some (pagesToProcess, st))"

declare crawlLoop.simps [simp del]

text \<open>
  \<open>crawlAllPages\<close>. The wait for \<open>TABS_READY\<close> at its head only reads Redis and the crawl
  goes on after 30 seconds whatever it read, so it is left out; \<open>hasContext\<close> says
  whether the browser has any context to look for tabs in.
\<close>

definition crawlAllPages :: "nat \<Rightarrow> browserEnv \<Rightarrow> nat \<Rightarrow> workerState \<Rightarrow> workerState option" where
  "crawlAllPages rounds env workerId st =
     (case TOTAL_PAGES (redisOf st) of
        None \<Rightarrow> Some st
      | Some totalPagesStr \<Rightarrow>
          if totalPagesStr = [] then Some st
          else (case parseInt totalPagesStr of
                  None \<Rightarrow> Some st
                | Some totalPages \<Rightarrow>
                    if totalPages \<le> 0 then Some st
                    else (case WORKER_PAGES (redisOf st) workerId of
                            None \<Rightarrow> Some st
                          | Some pagesToProcess \<Rightarrow>
                              if length pagesToProcess = 0 then Some st
                              else if \<not> hasContext env then Some st
                              else (case crawlLoop rounds env workerId pagesToProcess st of
                                      None \<Rightarrow> None
                                    | Some (pagesLeft, st') \<Rightarrow>
                                        if length pagesLeft = 0
                                        then Some (st'\<lparr>redisOf := (redisOf st')\<lparr>WORKER_COMPLETE :=
                                               (WORKER_COMPLETE (redisOf st'))(workerId \<mapsto> ''1'')\<rparr>\<rparr>)
                                        else Some st'))))"

definition checkAndCrawlIfNeeded :: "nat \<Rightarrow> browserEnv \<Rightarrow> nat \<Rightarrow> workerState \<Rightarrow> workerState option" where
  "checkAndCrawlIfNeeded rounds env workerId st =
     (if (case WORKER_PAGES (redisOf st) workerId of None \<Rightarrow> False | Some pages \<Rightarrow> length pages > 0)
      then crawlAllPages rounds env workerId st
      else if CRAWL_TRIGGER (redisOf st) = Some ''1''
           then crawlAllPages rounds env workerId (st\<lparr>redisOf := (redisOf st)\<lparr>CRAWL_TRIGGER := None\<rparr>\<rparr>)
           else Some st)"

section \<open>Reading an assignment back\<close>

text \<open>The pages of the inclusive range held by a General worker's key, and its two ends.\<close>

definition pageSet :: "redis \<Rightarrow> nat \<Rightarrow> int set" where
  "pageSet r workerId =
     (case GENERAL_WORKER_PAGES r workerId of None \<Rightarrow> {} | Some (s, e) \<Rightarrow> {s..e})"

definition rangeStart :: "redis \<Rightarrow> nat \<Rightarrow> int" where
  "rangeStart r workerId = (case GENERAL_WORKER_PAGES r workerId of None \<Rightarrow> 0 | Some (s, e) \<Rightarrow> s)"

definition rangeEnd :: "redis \<Rightarrow> nat \<Rightarrow> int" where
  "rangeEnd r workerId = (case GENERAL_WORKER_PAGES r workerId of None \<Rightarrow> 0 | Some (s, e) \<Rightarrow> e)"

text \<open>The number the Manager reads from the rotation key \<open>LAST_ASSIGNED_PAGE\<close>.\<close>

definition lastAssigned :: "redis \<Rightarrow> int" where
  "lastAssigned r = fst (readCounter (LAST_ASSIGNED_PAGE r))"

section \<open>Example states\<close>

text \<open>Manager configurations: even distribution, and rotation with batches of 50 pages.\<close>

definition evenConfig :: config where
  "evenConfig = \<lparr>ENABLE_ROUND_ROBIN_ROTATION = False, ROTATION_BATCH_SIZE = 50\<rparr>"

definition rotationConfig :: config where
  "rotationConfig = \<lparr>ENABLE_ROUND_ROBIN_ROTATION = True, ROTATION_BATCH_SIZE = 50\<rparr>"

text \<open>General worker 1 sent its last heartbeat at time 1000.\<close>

definition oneHeartbeat :: redis where
  "oneHeartbeat = emptyRedis\<lparr>GENERAL_WORKER_HEARTBEAT := (\<lambda>_. None)(1 \<mapsto> ''1000'')\<rparr>"

text \<open>General workers \<open>1..k\<close> sent a heartbeat at time 1000; nothing else is stored.\<close>

definition heartbeatsUpTo :: "nat \<Rightarrow> redis" where
  "heartbeatsUpTo k =
     emptyRedis\<lparr>GENERAL_WORKER_HEARTBEAT := (\<lambda>w. if 1 \<le> w \<and> w \<le> k then Some ''1000'' else None)\<rparr>"

text \<open>
  Scenario S2 of the specification, with worker 1 in the middle of its range: 300 pages
  are split between workers 1 and 2, worker 1 has set its processing flag, and worker 3
  has just sent its first heartbeat.
\<close>

definition joinWhileProcessing :: redis where
  "joinWhileProcessing =
     (heartbeatsUpTo 3)
       \<lparr>TOTAL_PAGES := Some ''300'',
        GENERAL_WORKER_PAGES := (\<lambda>_. None)(1 \<mapsto> (1, 150), 2 \<mapsto> (151, 300)),
        GENERAL_WORKER_PROCESSING := (\<lambda>_. None)(1 \<mapsto> ''1'')\<rparr>"

text \<open>
  Scenario S4 of the specification (120 pages, batches of 50, workers 1 and 2) after
  its third assignment, with both workers done: the cycle is over.
\<close>

definition cycleFinished :: redis where
  "cycleFinished =
     (heartbeatsUpTo 2)
       \<lparr>TOTAL_PAGES := Some ''120'',
        GENERAL_WORKER_PAGES := (\<lambda>_. None)(1 \<mapsto> (101, 120), 2 \<mapsto> (51, 100)),
        GENERAL_WORKER_COMPLETE := (\<lambda>_. None)(1 \<mapsto> ''1'', 2 \<mapsto> ''1''),
        ROTATION_INDEX := Some ''1'',
        LAST_ASSIGNED_PAGE := Some ''120''\<rparr>"

text \<open>
  Product worker lists: worker 1 holds nine pages and worker 5, which is not live, one;
  worker 1 holds three pages; worker 1 holds the same page twice.
\<close>

definition ninePages :: redis where
  "ninePages = emptyRedis\<lparr>WORKER_PAGES := (\<lambda>_. None)(1 \<mapsto> [1, 2, 3, 4, 5, 6, 7, 8, 9], 5 \<mapsto> [20])\<rparr>"

definition threePages :: redis where
  "threePages = emptyRedis\<lparr>WORKER_PAGES := (\<lambda>_. None)(1 \<mapsto> [1, 2, 3])\<rparr>"

definition repeatedPage :: redis where
  "repeatedPage = emptyRedis\<lparr>WORKER_PAGES := (\<lambda>_. None)(1 \<mapsto> [5, 5])\<rparr>"

text \<open>
  Product worker 1 is assigned pages 7 and 8; a tab is open for page 8 and none for
  page 7.
\<close>

definition productOn :: "string \<Rightarrow> int \<Rightarrow> product" where
  "productOn a n = \<lparr>asin = a, url = [], title = [], pageNumber = n\<rparr>"

definition missingTabEnv :: browserEnv where
  "missingTabEnv =
     \<lparr>hasContext = True,
      tabFor = (\<lambda>n. if n = 8 then Extracted [productOn ''B000000008'' 8] else NoTab),
      upsertThrows = (\<lambda>_. False)\<rparr>"

definition missingTabState :: workerState where
  "missingTabState =
     \<lparr>redisOf = emptyRedis\<lparr>TOTAL_PAGES := Some ''10'', WORKER_PAGES := (\<lambda>_. None)(1 \<mapsto> [7, 8])\<rparr>,
      productTable = [], dbCalls = []\<rparr>"

text \<open>
  Page 3 is stored with the identifiers A and C; its tab now shows A and B.
\<close>

definition changedEnv :: browserEnv where
  "changedEnv =
     \<lparr>hasContext = True,
      tabFor = (\<lambda>n. if n = 3 then Extracted [productOn ''B00000000A'' 3, productOn ''B00000000B'' 3] else NoTab),
      upsertThrows = (\<lambda>_. False)\<rparr>"

definition changedState :: workerState where
  "changedState =
     \<lparr>redisOf = emptyRedis\<lparr>TOTAL_PAGES := Some ''10'', WORKER_PAGES := (\<lambda>_. None)(1 \<mapsto> [3])\<rparr>,
      productTable = [productOn ''B00000000A'' 3, productOn ''B00000000C'' 3], dbCalls = []\<rparr>"

text \<open>The same tab, with the database rejecting the upsert of B.\<close>

definition rejectingEnv :: browserEnv where
  "rejectingEnv = changedEnv\<lparr>upsertThrows := (\<lambda>p. asin p = ''B00000000B'')\<rparr>"

text \<open>The crawl trigger is set and no Product worker has a page list.\<close>

definition triggerState :: workerState where
  "triggerState =
     \<lparr>redisOf = emptyRedis\<lparr>TOTAL_PAGES := Some ''10'', CRAWL_TRIGGER := Some ''1''\<rparr>,
      productTable = [], dbCalls = []\<rparr>"

section \<open>Facts about the primitives\<close>

lemma digits_nonempty: "digits n \<noteq> []"
  by (subst digits.simps) simp

lemma of_char_digit: "k < 10 \<Longrightarrow> (of_char (char_of (48 + k)) :: nat) = 48 + k"
  by simp

lemma digits_all_digit: "c \<in> set (digits n) \<Longrightarrow> isDigit c"
proof (induction n arbitrary: c rule: digits.induct)
  case (1 n)
  show ?case
  proof (cases "n < 10")
    case True
    with "1.prems" have "c = char_of (48 + n)" by (subst (asm) digits.simps) simp
    with True show ?thesis by (simp add: isDigit_def)
  next
    case False
    with "1.prems" have "c \<in> set (digits (n div 10)) \<or> c = char_of (48 + n mod 10)"
      by (subst (asm) digits.simps) auto
    then show ?thesis
    proof
      assume "c \<in> set (digits (n div 10))"
      with False "1.IH" show ?thesis by simp
    next
      assume c: "c = char_of (48 + n mod 10)"
      have "n mod 10 < 10" by simp
      then have "(of_char c :: nat) = 48 + n mod 10" unfolding c by (rule of_char_digit)
      then show ?thesis by (simp add: isDigit_def)
    qed
  qed
qed

lemma digits_value: "foldl (\<lambda>a c. a * 10 + digitVal c) 0 (digits n) = int n"
proof (induction n rule: digits.induct)
  case (1 n)
  show ?case
  proof (cases "n < 10")
    case True
    then show ?thesis by (subst digits.simps) (simp add: digitVal_def)
  next
    case False
    have "n mod 10 < 10" by simp
    then have d: "digitVal (char_of (48 + n mod 10)) = int (n mod 10)"
      unfolding digitVal_def by (subst of_char_digit) simp_all
    from False "1.IH" have "foldl (\<lambda>a c. a * 10 + digitVal c) 0 (digits (n div 10)) = int (n div 10)"
      by simp
    with False d show ?thesis
      by (subst digits.simps) (simp add: zdiv_int zmod_int)
  qed
qed

lemma parseInt_digits: "parseInt (digits n) = Some (int n)"
proof -
  obtain c cs where cs: "digits n = c # cs"
    using digits_nonempty [of n] by (cases "digits n") auto
  have dc: "isDigit c" using digits_all_digit [of c n] cs by simp
  then have nw: "\<not> isWhiteSpace c" and nm: "c \<noteq> CHR ''-''" and np: "c \<noteq> CHR ''+''"
    by (auto simp: isDigit_def isWhiteSpace_def)
  have tw: "takeWhile isDigit (c # cs) = c # cs"
    using digits_all_digit [of _ n] cs by (metis takeWhile_eq_all_conv)
  have "foldl (\<lambda>a c. a * 10 + digitVal c) 0 (c # cs) = int n"
    using digits_value [of n] cs by simp
  then show ?thesis
    unfolding parseInt_def cs using nw nm np tw by (simp add: Let_def)
qed

text \<open>A non-negative number written with \<open>toString\<close> is read back by \<open>parseInt\<close>.\<close>

lemma parseInt_toString: "0 \<le> n \<Longrightarrow> parseInt (toString n) = Some n"
  by (simp add: toString_def parseInt_digits)

lemma toString_nonempty: "toString n \<noteq> []"
  by (simp add: toString_def digits_nonempty)

lemma parseInt_Nil: "parseInt [] = None"
  by (simp add: parseInt_def)

text \<open>\<open>ceilDiv\<close> is the ceiling of the real quotient, as \<open>Math.ceil(a / b)\<close> is.\<close>

lemma ceilDiv_ceiling: "0 < b \<Longrightarrow> ceilDiv a b = \<lceil>real_of_int a / real_of_int b\<rceil>"
proof -
  have "\<lfloor>real_of_int (- a) / real_of_int b\<rfloor> = (- a) div b"
    by (rule floor_divide_of_int_eq)
  then show ?thesis
    by (simp add: ceilDiv_def ceiling_def)
qed

lemma ceilDiv_pos: "1 \<le> a \<Longrightarrow> 0 < b \<Longrightarrow> 1 \<le> ceilDiv a b"
proof -
  assume "1 \<le> a" "0 < b"
  then have "(- a) div b < 0" by (simp add: pos_imp_zdiv_neg_iff)
  then show ?thesis by (simp add: ceilDiv_def)
qed

lemma ceilDiv_upper: "0 < b \<Longrightarrow> a \<le> b * ceilDiv a b"
proof -
  assume b: "0 < b"
  have "b * ((- a) div b) + (- a) mod b = - a" by simp
  moreover have "0 \<le> (- a) mod b" using b by simp
  ultimately have "b * ((- a) div b) \<le> - a" by linarith
  then show ?thesis by (simp add: ceilDiv_def)
qed

section \<open>Liveness\<close>

lemma heartbeatActive_iff:
  "heartbeatActive now h \<longleftrightarrow> (\<exists>s t. h = Some s \<and> parseInt s = Some t \<and> now - t < 60000)"
  by (auto simp: heartbeatActive_def HEARTBEAT_TIMEOUT_MS_def parseInt_Nil split: option.splits)

lemma detectActiveGeneralWorkers_sorted:
  "sorted (detectActiveGeneralWorkers now r) \<and> distinct (detectActiveGeneralWorkers now r)"
  by (simp add: detectActiveGeneralWorkers_def)

text \<open>
  C8, at the edge of the window. A heartbeat written at time 1000 is exactly 60 seconds
  old at time 61000, so \<open>now - t \<le> 60000\<close> holds, and the scan does not list the worker.
\<close>

theorem liveness_boundary_counterexample:
  "GENERAL_WORKER_HEARTBEAT oneHeartbeat 1 = Some ''1000'' \<and> parseInt ''1000'' = Some 1000
   \<and> (61000 :: int) - 1000 \<le> 60000
   \<and> 1 \<notin> set (detectActiveGeneralWorkers 61000 oneHeartbeat)"
  by code_simp

text \<open>
  C8, as the code has it. Both liveness scans (the Manager's over the General workers and
  the General worker's over the Product workers) list an id exactly when it lies in
  \<open>1..20\<close> and its heartbeat key holds a text that \<open>parseInt\<close> reads as a number \<open>t\<close> with
  \<open>now - t < 60000\<close>, strictly; a missing key, a text without a number and a heartbeat of
  age 60000 ms or more are left out. The list is in ascending order without repetition.
\<close>

theorem liveness_classification:
  "(workerId \<in> set (detectActiveGeneralWorkers now r) \<longleftrightarrow>
      1 \<le> workerId \<and> workerId \<le> 20 \<and>
      (\<exists>s t. GENERAL_WORKER_HEARTBEAT r workerId = Some s \<and> parseInt s = Some t \<and> now - t < 60000))
   \<and> sorted (detectActiveGeneralWorkers now r) \<and> distinct (detectActiveGeneralWorkers now r)
   \<and> (workerId \<in> set (detectActiveWorkers now r) \<longleftrightarrow>
      1 \<le> workerId \<and> workerId \<le> 20 \<and>
      (\<exists>s t. WORKER_HEARTBEAT r workerId = Some s \<and> parseInt s = Some t \<and> now - t < 60000))
   \<and> sorted (detectActiveWorkers now r) \<and> distinct (detectActiveWorkers now r)"
  unfolding detectActiveGeneralWorkers_def detectActiveWorkers_def
  by (auto simp: heartbeatActive_iff)

section \<open>Even distribution\<close>

lemma evenLoop_frame:
  "w \<notin> set ws \<Longrightarrow> GENERAL_WORKER_PAGES (evenLoop T p i ws r) w = GENERAL_WORKER_PAGES r w"
  by (induction ws arbitrary: i r) (auto simp: Let_def)

lemma evenLoop_pages:
  "distinct ws \<Longrightarrow> j < length ws \<Longrightarrow>
   GENERAL_WORKER_PAGES (evenLoop T p i ws r) (ws ! j)
     = Some ((i + int j) * p + 1, min ((i + int j + 1) * p) T)"
proof (induction ws arbitrary: i r j)
  case Nil
  then show ?case by simp
next
  case (Cons w ws)
  show ?case
  proof (cases j)
    case 0
    with Cons.prems show ?thesis by (simp add: Let_def evenLoop_frame)
  next
    case (Suc k)
    with Cons.prems have "k < length ws" "distinct ws" by simp_all
    from Cons.IH [OF this(2) this(1), of "i + 1"] Suc show ?thesis
      by (simp add: Let_def algebra_simps)
  qed
qed

lemma even_cover:
  fixes T p :: int and n :: nat
  assumes p: "1 \<le> p" and np: "T \<le> int n * p"
  shows "(\<Union>i<n. {int i * p + 1 .. min ((int i + 1) * p) T}) = {1..T}"
proof (intro equalityI subsetI)
  fix x assume "x \<in> (\<Union>i<n. {int i * p + 1 .. min ((int i + 1) * p) T})"
  then obtain i where i: "i < n" "int i * p + 1 \<le> x" "x \<le> min ((int i + 1) * p) T" by auto
  have "0 \<le> int i * p" using p by simp
  with i show "x \<in> {1..T}" by simp
next
  fix x assume "x \<in> {1..T}"
  then have x: "1 \<le> x" "x \<le> T" by simp_all
  define q where "q = (x - 1) div p"
  define m where "m = (x - 1) mod p"
  have eq: "x - 1 = q * p + m" by (simp add: q_def m_def)
  have m: "0 \<le> m" "m < p" using p by (simp_all add: m_def)
  have q0: "0 \<le> q" using x p by (simp add: q_def pos_imp_zdiv_nonneg_iff)
  have qn: "q < int n"
  proof (rule ccontr)
    assume "\<not> q < int n"
    then have "int n * p \<le> q * p" using p by (intro mult_right_mono) simp_all
    with eq m np x show False by linarith
  qed
  have i: "nat q < n" using q0 qn by simp
  have "(int (nat q) + 1) * p = q * p + p" using q0 by (simp add: algebra_simps)
  moreover have "int (nat q) * p = q * p" using q0 by simp
  ultimately have "x \<in> {int (nat q) * p + 1 .. min ((int (nat q) + 1) * p) T}"
    using eq m x by simp
  with i show "x \<in> (\<Union>i<n. {int i * p + 1 .. min ((int i + 1) * p) T})" by blast
qed

lemma even_disjoint:
  fixes T p :: int
  assumes p: "1 \<le> p" and ij: "i < (j::nat)"
  shows "{int i * p + 1 .. min ((int i + 1) * p) T} \<inter> {int j * p + 1 .. min ((int j + 1) * p) T} = {}"
proof -
  have "(int i + 1) * p \<le> int j * p" using p ij by (intro mult_right_mono) simp_all
  then show ?thesis by auto
qed

lemma even_nonempty_iff:
  fixes T p :: int
  assumes p: "1 \<le> p"
  shows "int i * p + 1 \<le> min ((int i + 1) * p) T \<longleftrightarrow> int i * p < T"
proof -
  have "(int i + 1) * p = int i * p + p" by (simp add: algebra_simps)
  with p show ?thesis by auto
qed

lemma even_adjacent_iff:
  fixes T p :: int
  shows "min ((int i + 1) * p) T + 1 = int (Suc i) * p + 1 \<longleftrightarrow> (int i + 1) * p \<le> T"
proof -
  have "int (Suc i) * p = (int i + 1) * p" by simp
  then show ?thesis unfolding min_def by (simp only: split: if_splits) linarith
qed

text \<open>
  C2, with more workers than ranges. Five pages and four live workers give ranges of two
  pages; worker 3 gets \<open>{5, 5}\<close> and worker 4 gets \<open>{7, 5}\<close>, whose start is beyond its
  end and is not the page after worker 3's end.
\<close>

theorem even_partition_counterexample:
  "detectActiveGeneralWorkers 2000 (heartbeatsUpTo 4) = [1, 2, 3, 4]
   \<and> GENERAL_WORKER_PAGES (distributePagesEvenly 2000 5 (heartbeatsUpTo 4)) 3 = Some (5, 5)
   \<and> GENERAL_WORKER_PAGES (distributePagesEvenly 2000 5 (heartbeatsUpTo 4)) 4 = Some (7, 5)
   \<and> \<not> rangeStart (distributePagesEvenly 2000 5 (heartbeatsUpTo 4)) 4
         \<le> rangeEnd (distributePagesEvenly 2000 5 (heartbeatsUpTo 4)) 4
   \<and> rangeEnd (distributePagesEvenly 2000 5 (heartbeatsUpTo 4)) 3 + 1
         \<noteq> rangeStart (distributePagesEvenly 2000 5 (heartbeatsUpTo 4)) 4"
  by code_simp

text \<open>
  C2, as the code has it. Let \<open>W\<close> be the non-empty list of live General workers and
  \<open>T \<ge> 1\<close>. The even distribution writes to the worker at position \<open>i\<close> the range from
  \<open>i * ceil(T / |W|) + 1\<close> to \<open>min((i + 1) * ceil(T / |W|), T)\<close>. Read as inclusive
  ranges (empty when the start exceeds the end), the written ranges cover exactly
  \<open>1..T\<close> and no two of them share a page. The range at position \<open>i\<close> has
  \<open>start \<le> end\<close> exactly when \<open>i * ceil(T / |W|) < T\<close>, and the range after it starts at
  its end plus one exactly when \<open>(i + 1) * ceil(T / |W|) \<le> T\<close>.
\<close>

theorem even_partition:
  assumes T: "1 \<le> T" and W: "detectActiveGeneralWorkers now r = W" and ne: "W \<noteq> []"
  shows "(\<forall>i<length W. GENERAL_WORKER_PAGES (distributePagesEvenly now T r) (W ! i)
            = Some (int i * ceilDiv T (int (length W)) + 1,
                    min ((int i + 1) * ceilDiv T (int (length W))) T))
       \<and> (\<Union>w\<in>set W. pageSet (distributePagesEvenly now T r) w) = {1..T}
       \<and> (\<forall>i<length W. \<forall>j<length W. i \<noteq> j \<longrightarrow>
            pageSet (distributePagesEvenly now T r) (W ! i)
              \<inter> pageSet (distributePagesEvenly now T r) (W ! j) = {})
       \<and> (\<forall>i<length W.
            rangeStart (distributePagesEvenly now T r) (W ! i) \<le> rangeEnd (distributePagesEvenly now T r) (W ! i)
              \<longleftrightarrow> int i * ceilDiv T (int (length W)) < T)
       \<and> (\<forall>i. Suc i < length W \<longrightarrow>
            (rangeEnd (distributePagesEvenly now T r) (W ! i) + 1
               = rangeStart (distributePagesEvenly now T r) (W ! Suc i)
              \<longleftrightarrow> (int i + 1) * ceilDiv T (int (length W)) \<le> T))"
proof -
  define p where "p = ceilDiv T (int (length W))"
  define r' where "r' = distributePagesEvenly now T r"
  have n: "0 < int (length W)" using ne by simp
  have p1: "1 \<le> p" unfolding p_def using T n by (rule ceilDiv_pos)
  have np: "T \<le> int (length W) * p" unfolding p_def using n by (rule ceilDiv_upper)
  have dW: "distinct W" using detectActiveGeneralWorkers_sorted [of now r] W by simp
  have r': "r' = evenLoop T p 0 W r"
    using W ne by (simp add: r'_def distributePagesEvenly_def p_def)
  have written: "GENERAL_WORKER_PAGES r' (W ! i) = Some (int i * p + 1, min ((int i + 1) * p) T)"
    if "i < length W" for i
    using evenLoop_pages [OF dW that, of T p 0 r] by (simp add: r')
  have ps: "pageSet r' (W ! i) = {int i * p + 1 .. min ((int i + 1) * p) T}" if "i < length W" for i
    by (simp add: pageSet_def written [OF that])
  have rs: "rangeStart r' (W ! i) = int i * p + 1" if "i < length W" for i
    by (simp add: rangeStart_def written [OF that])
  have re: "rangeEnd r' (W ! i) = min ((int i + 1) * p) T" if "i < length W" for i
    by (simp add: rangeEnd_def written [OF that])
  have c1: "\<forall>i<length W. GENERAL_WORKER_PAGES r' (W ! i) = Some (int i * p + 1, min ((int i + 1) * p) T)"
    using written by blast
  have "(\<Union>w\<in>set W. pageSet r' w) = (\<Union>i<length W. pageSet r' (W ! i))"
    by (force simp: in_set_conv_nth)
  also have "\<dots> = (\<Union>i<length W. {int i * p + 1 .. min ((int i + 1) * p) T})"
    using ps by simp
  also have "\<dots> = {1..T}" using p1 np by (rule even_cover)
  finally have c2: "(\<Union>w\<in>set W. pageSet r' w) = {1..T}" .
  have c3: "\<forall>i<length W. \<forall>j<length W. i \<noteq> j \<longrightarrow> pageSet r' (W ! i) \<inter> pageSet r' (W ! j) = {}"
  proof (intro allI impI)
    fix i j assume ij: "i < length W" "j < length W" "i \<noteq> j"
    then consider "i < j" | "j < i" by linarith
    then show "pageSet r' (W ! i) \<inter> pageSet r' (W ! j) = {}"
    proof cases
      case 1
      from even_disjoint [OF p1 1, of T] ij show ?thesis by (simp add: ps)
    next
      case 2
      from even_disjoint [OF p1 2, of T] ij show ?thesis by (simp add: ps Int_commute)
    qed
  qed
  have c4: "\<forall>i<length W. rangeStart r' (W ! i) \<le> rangeEnd r' (W ! i) \<longleftrightarrow> int i * p < T"
    using even_nonempty_iff [OF p1, of _ T] by (simp add: rs re)
  have c5: "\<forall>i. Suc i < length W \<longrightarrow>
      (rangeEnd r' (W ! i) + 1 = rangeStart r' (W ! Suc i) \<longleftrightarrow> (int i + 1) * p \<le> T)"
  proof (intro allI impI)
    fix i assume i: "Suc i < length W"
    then have "i < length W" by simp
    with i even_adjacent_iff [of i p T] show
      "rangeEnd r' (W ! i) + 1 = rangeStart r' (W ! Suc i) \<longleftrightarrow> (int i + 1) * p \<le> T"
      by (simp only: rs re)
  qed
  from c1 c2 c3 c4 c5 show ?thesis unfolding p_def r'_def by blast
qed


theorem even_partition_witness:
  "(1 :: int) \<le> 300 \<and> detectActiveGeneralWorkers 2000 (heartbeatsUpTo 2) = [1, 2]
   \<and> [1, 2 :: nat] \<noteq> []
   \<and> (\<Union>w\<in>set [1, 2]. pageSet (distributePagesEvenly 2000 300 (heartbeatsUpTo 2)) w) = {1..300}"
proof -
  have T: "(1 :: int) \<le> 300" by simp
  have W: "detectActiveGeneralWorkers 2000 (heartbeatsUpTo 2) = [1, 2]" by code_simp
  have ne: "[1, 2 :: nat] \<noteq> []" by simp
  have c: "(\<Union>w\<in>set [1, 2]. pageSet (distributePagesEvenly 2000 300 (heartbeatsUpTo 2)) w) = {1..300}"
    using even_partition [OF T W ne] by (rule conjunct1 [OF conjunct2])
  show ?thesis by (intro conjI T W ne c)
qed

text \<open>
  C3, on scenario S2. Worker 1 holds \<open>{1, 150}\<close> and its processing flag is \<open>"1"\<close>;
  worker 3 has no range yet, which makes the tick redistribute. The tick overwrites the
  range of worker 1 with \<open>{1, 100}\<close> while the flag is still set.
\<close>

theorem even_mode_rewrites_processing_worker:
  "GENERAL_WORKER_PROCESSING joinWhileProcessing 1 = Some ''1''
   \<and> GENERAL_WORKER_PAGES joinWhileProcessing 1 = Some (1, 150)
   \<and> GENERAL_WORKER_PROCESSING (checkAndAssignWork evenConfig 2000 2001 joinWhileProcessing) 1 = Some ''1''
   \<and> GENERAL_WORKER_PAGES (checkAndAssignWork evenConfig 2000 2001 joinWhileProcessing) 1 = Some (1, 100)"
  by code_simp

section \<open>Start-up lock of the General worker\<close>

text \<open>
  For any worker id and any clocks: when the lock key is missing and both processes read
  it before either writes it, both return \<open>hasDuplicate = false\<close>.
\<close>

lemma lock_race_any_worker:
  "WORKER_LOCK r General workerId = None \<Longrightarrow>
   fst (interleave workerId [(First, t1), (Second, t2), (First, t3), (Second, t4)] (AtGet, AtGet, r))
     = Returned False
   \<and> fst (snd (interleave workerId [(First, t1), (Second, t2), (First, t3), (Second, t4)] (AtGet, AtGet, r)))
     = Returned False"
  by simp

text \<open>
  C1, for the role \<open>general\<close>. Two General workers with id 1 start on an empty lock key.
  Both make their \<open>GET\<close> before either makes its \<open>SET\<close>: both find no lock, both write
  their time stamp, and both return \<open>hasDuplicate = false\<close>.
\<close>

theorem general_lock_race:
  "WORKER_LOCK emptyRedis General 1 = None
   \<and> (case interleave 1 [(First, 1000), (Second, 1000), (First, 1001), (Second, 1002)]
              (AtGet, AtGet, emptyRedis) of
         (p, q, r) \<Rightarrow> p = Returned False \<and> q = Returned False
                      \<and> WORKER_LOCK r General 1 = Some ''1002'')"
  by code_simp

section \<open>Round-robin rotation\<close>

lemma readCounter_nonneg: "0 \<le> fst (readCounter str)"
  by (auto simp: readCounter_def split: option.splits)

lemma readCounter_toString: "0 \<le> n \<Longrightarrow> readCounter (Some (toString n)) = (n, False)"
  by (simp add: readCounter_def toString_nonempty parseInt_toString)

lemma readCounter_zero: "readCounter (Some ''0'') = (0, False)"
  by code_simp

lemma clearWorkers_fields:
  "LAST_ASSIGNED_PAGE (clearWorkers ws r) = LAST_ASSIGNED_PAGE r
   \<and> ROTATION_INDEX (clearWorkers ws r) = ROTATION_INDEX r
   \<and> TOTAL_PAGES (clearWorkers ws r) = TOTAL_PAGES r"
  by (induction ws arbitrary: r) auto

lemma clearWorkers_frame:
  "w \<notin> set ws \<Longrightarrow> GENERAL_WORKER_PAGES (clearWorkers ws r) w = GENERAL_WORKER_PAGES r w"
  by (induction ws arbitrary: r) auto

lemma clearWorkers_cleared:
  "w \<in> set ws \<Longrightarrow> GENERAL_WORKER_PAGES (clearWorkers ws r) w = None"
proof (induction ws arbitrary: r)
  case Nil
  then show ?case by simp
next
  case (Cons v ws)
  show ?case
  proof (cases "w \<in> set ws")
    case True
    with Cons.IH show ?thesis by simp
  next
    case False
    with Cons.prems have "w = v" by simp
    with False show ?thesis by (simp add: clearWorkers_frame)
  qed
qed

lemma roundRobin_no_worker:
  "detectActiveGeneralWorkers now r = [] \<Longrightarrow> distributePagesRoundRobin cfg now T r = r"
  by (simp add: distributePagesRoundRobin_def)

lemma roundRobin_reset:
  assumes W: "detectActiveGeneralWorkers now r \<noteq> []" and L: "T \<le> lastAssigned r"
  shows "LAST_ASSIGNED_PAGE (distributePagesRoundRobin cfg now T r) = Some ''0''
       \<and> ROTATION_INDEX (distributePagesRoundRobin cfg now T r) = Some ''0''
       \<and> (\<forall>w \<in> set (detectActiveGeneralWorkers now r).
             GENERAL_WORKER_PAGES (distributePagesRoundRobin cfg now T r) w = None)"
  using W L
  by (simp add: distributePagesRoundRobin_def Let_def lastAssigned_def clearWorkers_fields
      clearWorkers_cleared)

lemma roundRobin_assign:
  assumes W: "detectActiveGeneralWorkers now r \<noteq> []" and L: "lastAssigned r < T"
    and B: "1 \<le> ROTATION_BATCH_SIZE cfg"
  shows "\<exists>w \<in> set (detectActiveGeneralWorkers now r).
           GENERAL_WORKER_PAGES (distributePagesRoundRobin cfg now T r)
             = (GENERAL_WORKER_PAGES r)
                 (w \<mapsto> (lastAssigned r + 1, min (lastAssigned r + ROTATION_BATCH_SIZE cfg) T))
           \<and> GENERAL_WORKER_COMPLETE (distributePagesRoundRobin cfg now T r)
             = (GENERAL_WORKER_COMPLETE r)(w := None)
           \<and> LAST_ASSIGNED_PAGE (distributePagesRoundRobin cfg now T r)
             = Some (toString (min (lastAssigned r + ROTATION_BATCH_SIZE cfg) T))"
proof -
  define ws where "ws = detectActiveGeneralWorkers now r"
  define idx where "idx = (if fst (readCounter (ROTATION_INDEX r)) \<ge> int (length ws) then 0
                           else fst (readCounter (ROTATION_INDEX r)))"
  define w where "w = ws ! nat (idx mod int (length ws))"
  have n: "0 < int (length ws)" using W by (simp add: ws_def)
  then have "nat (idx mod int (length ws)) < length ws"
    by (metis nat_less_iff pos_mod_sign pos_mod_bound)
  then have wmem: "w \<in> set ws" unfolding w_def by (rule nth_mem)
  have e: "lastAssigned r + 1 + ROTATION_BATCH_SIZE cfg - 1 = lastAssigned r + ROTATION_BATCH_SIZE cfg"
    by simp
  have "GENERAL_WORKER_PAGES (distributePagesRoundRobin cfg now T r)
          = (GENERAL_WORKER_PAGES r)
              (w \<mapsto> (lastAssigned r + 1, min (lastAssigned r + ROTATION_BATCH_SIZE cfg) T))
        \<and> GENERAL_WORKER_COMPLETE (distributePagesRoundRobin cfg now T r)
          = (GENERAL_WORKER_COMPLETE r)(w := None)
        \<and> LAST_ASSIGNED_PAGE (distributePagesRoundRobin cfg now T r)
          = Some (toString (min (lastAssigned r + ROTATION_BATCH_SIZE cfg) T))"
    using W L
    by (simp add: distributePagesRoundRobin_def Let_def lastAssigned_def [symmetric]
        ws_def [symmetric] idx_def [symmetric] w_def [symmetric] e)
  with wmem show ?thesis unfolding ws_def by blast
qed


lemma roundRobin_total:
  "TOTAL_PAGES (distributePagesRoundRobin cfg now T r) = TOTAL_PAGES r"
  by (simp add: distributePagesRoundRobin_def Let_def clearWorkers_fields)

text \<open>
  What one run of the rotation step does, for \<open>totalPages = T > 0\<close> and a batch size of
  at least 1. It never writes \<open>totalPages\<close> and does nothing without a live worker. With
  a live worker and the counter below \<open>T\<close>, one live worker gets the range from the
  previous counter plus one to the new counter, the new counter is
  \<open>min(previous + batch size, T)\<close>, larger than the previous one, and the range has at
  most the batch size of pages. With the counter at or beyond \<open>T\<close>, the counter is set to
  0 and the live workers' ranges are cleared. So a run with a live worker leaves the
  counter at 0 exactly when it found the counter at or beyond \<open>T\<close>.
\<close>

lemma rotation_step:
  assumes B: "1 \<le> ROTATION_BATCH_SIZE cfg" and Tpos: "0 < T"
  shows "TOTAL_PAGES (distributePagesRoundRobin cfg now' T r) = TOTAL_PAGES r
       \<and> (detectActiveGeneralWorkers now' r = [] \<longrightarrow> distributePagesRoundRobin cfg now' T r = r)
       \<and> (detectActiveGeneralWorkers now' r \<noteq> [] \<and> lastAssigned r < T \<longrightarrow>
            (\<exists>w \<in> set (detectActiveGeneralWorkers now' r).
               GENERAL_WORKER_PAGES (distributePagesRoundRobin cfg now' T r)
                 = (GENERAL_WORKER_PAGES r)
                     (w \<mapsto> (lastAssigned r + 1, lastAssigned (distributePagesRoundRobin cfg now' T r))))
            \<and> lastAssigned (distributePagesRoundRobin cfg now' T r)
                 = min (lastAssigned r + ROTATION_BATCH_SIZE cfg) T
            \<and> lastAssigned r < lastAssigned (distributePagesRoundRobin cfg now' T r)
            \<and> lastAssigned (distributePagesRoundRobin cfg now' T r) - (lastAssigned r + 1) + 1
                 \<le> ROTATION_BATCH_SIZE cfg)
       \<and> (detectActiveGeneralWorkers now' r \<noteq> [] \<and> T \<le> lastAssigned r \<longrightarrow>
            LAST_ASSIGNED_PAGE (distributePagesRoundRobin cfg now' T r) = Some ''0''
            \<and> lastAssigned (distributePagesRoundRobin cfg now' T r) = 0
            \<and> (\<forall>w \<in> set (detectActiveGeneralWorkers now' r).
                  GENERAL_WORKER_PAGES (distributePagesRoundRobin cfg now' T r) w = None))
       \<and> (detectActiveGeneralWorkers now' r \<noteq> [] \<longrightarrow>
            (lastAssigned (distributePagesRoundRobin cfg now' T r) = 0 \<longleftrightarrow> T \<le> lastAssigned r))"
proof -
  define r' where "r' = distributePagesRoundRobin cfg now' T r"
  define L where "L = lastAssigned r"
  have L0: "0 \<le> L" unfolding L_def lastAssigned_def by (rule readCounter_nonneg)
  have c2: "TOTAL_PAGES r' = TOTAL_PAGES r" unfolding r'_def by (rule roundRobin_total)
  have c3: "detectActiveGeneralWorkers now' r = [] \<longrightarrow> r' = r"
    unfolding r'_def by (simp add: roundRobin_no_worker)
  have assign: "(\<exists>w \<in> set (detectActiveGeneralWorkers now' r).
               GENERAL_WORKER_PAGES r' = (GENERAL_WORKER_PAGES r)(w \<mapsto> (L + 1, lastAssigned r')))
            \<and> lastAssigned r' = min (L + ROTATION_BATCH_SIZE cfg) T
            \<and> L < lastAssigned r'
            \<and> lastAssigned r' - (L + 1) + 1 \<le> ROTATION_BATCH_SIZE cfg"
    if W: "detectActiveGeneralWorkers now' r \<noteq> []" and lt: "L < T"
  proof -
    from roundRobin_assign [OF W lt [unfolded L_def] B, of ]
    obtain w where w: "w \<in> set (detectActiveGeneralWorkers now' r)"
      and pg: "GENERAL_WORKER_PAGES r'
                 = (GENERAL_WORKER_PAGES r)(w \<mapsto> (L + 1, min (L + ROTATION_BATCH_SIZE cfg) T))"
      and la: "LAST_ASSIGNED_PAGE r' = Some (toString (min (L + ROTATION_BATCH_SIZE cfg) T))"
      unfolding r'_def L_def by blast
    have "0 \<le> min (L + ROTATION_BATCH_SIZE cfg) T" using L0 B Tpos by simp
    then have l': "lastAssigned r' = min (L + ROTATION_BATCH_SIZE cfg) T"
      by (simp add: lastAssigned_def la readCounter_toString)
    from w pg l' have "\<exists>w \<in> set (detectActiveGeneralWorkers now' r).
               GENERAL_WORKER_PAGES r' = (GENERAL_WORKER_PAGES r)(w \<mapsto> (L + 1, lastAssigned r'))"
      by auto
    moreover have "L < lastAssigned r'" using l' lt B by simp
    moreover have "lastAssigned r' - (L + 1) + 1 \<le> ROTATION_BATCH_SIZE cfg" using l' by simp
    ultimately show ?thesis using l' by blast
  qed
  have reset: "LAST_ASSIGNED_PAGE r' = Some ''0'' \<and> lastAssigned r' = 0
            \<and> (\<forall>w \<in> set (detectActiveGeneralWorkers now' r). GENERAL_WORKER_PAGES r' w = None)"
    if W: "detectActiveGeneralWorkers now' r \<noteq> []" and ge: "T \<le> L"
    using roundRobin_reset [OF W ge [unfolded L_def], of cfg]
    by (simp add: r'_def lastAssigned_def readCounter_zero)
  have iff: "lastAssigned r' = 0 \<longleftrightarrow> T \<le> L" if W: "detectActiveGeneralWorkers now' r \<noteq> []"
  proof (cases "T \<le> L")
    case True
    with reset [OF W] show ?thesis by simp
  next
    case False
    then have "L < T" by simp
    from assign [OF W this] L0 False show ?thesis by simp
  qed
  from c2 c3 assign reset iff show ?thesis unfolding r'_def L_def by blast
qed

text \<open>
  At the end of the cycle the trigger of the tick cannot hold: the counter is not below
  \<open>totalPages\<close>, and the only workers that can be live hold a range.
\<close>

lemma cycleFinished_live:
  "w \<in> set (detectActiveGeneralWorkers now cycleFinished) \<Longrightarrow> w = 1 \<or> w = 2"
  by (auto simp: detectActiveGeneralWorkers_def heartbeatActive_def cycleFinished_def
      heartbeatsUpTo_def split: if_splits)

lemma cycleFinished_no_trigger:
  "\<not> rotationNeedsAssignment cycleFinished 120 (detectActiveGeneralWorkers now cycleFinished)"
proof -
  have l: "fst (readCounter (LAST_ASSIGNED_PAGE cycleFinished)) = 120" by code_simp
  have p: "GENERAL_WORKER_PAGES cycleFinished w \<noteq> None"
    if "w \<in> set (detectActiveGeneralWorkers now cycleFinished)" for w
    using cycleFinished_live [OF that] by (auto simp: cycleFinished_def)
  show ?thesis
    unfolding rotationNeedsAssignment_def Let_def l list_ex_iff using p by auto
qed

text \<open>
  C4, at the end of a cycle (scenario S4 after its third assignment). The counter has
  reached \<open>totalPages = 120\<close> and both workers have set their completion flag. The claim
  says that the counter is reset to 0 when it reaches \<open>totalPages\<close>, and a run of the
  rotation step on this state does reset it. But the tick does not run the step: its
  trigger asks for a counter below \<open>totalPages\<close> or a live worker without a range. At
  whatever clocks, the tick leaves the state as it is, so every later tick does the same
  and the counter stays at 120.
\<close>

theorem rotation_stalls_after_cycle:
  "TOTAL_PAGES cycleFinished = Some ''120'' \<and> lastAssigned cycleFinished = 120
   \<and> GENERAL_WORKER_COMPLETE cycleFinished 1 = Some ''1''
   \<and> GENERAL_WORKER_COMPLETE cycleFinished 2 = Some ''1''
   \<and> detectActiveGeneralWorkers 2000 cycleFinished = [1, 2]
   \<and> LAST_ASSIGNED_PAGE (distributePagesRoundRobin rotationConfig 2001 120 cycleFinished) = Some ''0''
   \<and> checkAndAssignWork rotationConfig now now' cycleFinished = cycleFinished
   \<and> LAST_ASSIGNED_PAGE (checkAndAssignWork rotationConfig now now' cycleFinished) = Some ''120''"
proof -
  have a: "TOTAL_PAGES cycleFinished = Some ''120''" by code_simp
  have b: "lastAssigned cycleFinished = 120" by code_simp
  have c: "GENERAL_WORKER_COMPLETE cycleFinished 1 = Some ''1''" by code_simp
  have d: "GENERAL_WORKER_COMPLETE cycleFinished 2 = Some ''1''" by code_simp
  have e: "detectActiveGeneralWorkers 2000 cycleFinished = [1, 2]" by code_simp
  have f: "LAST_ASSIGNED_PAGE (distributePagesRoundRobin rotationConfig 2001 120 cycleFinished) = Some ''0''"
    by code_simp
  have p: "parseInt ''120'' = Some 120" by code_simp
  have rr: "ENABLE_ROUND_ROBIN_ROTATION rotationConfig" by code_simp
  have g: "checkAndAssignWork rotationConfig now now' cycleFinished = cycleFinished"
    by (simp add: checkAndAssignWork_def a p rr cycleFinished_no_trigger Let_def)
  have h: "LAST_ASSIGNED_PAGE (checkAndAssignWork rotationConfig now now' cycleFinished) = Some ''120''"
    unfolding g by code_simp
  show ?thesis by (intro conjI a b c d e f g h)
qed

section \<open>Rebalancing the Product workers\<close>

lemma giveLoop_frame:
  "w \<notin> set idle \<Longrightarrow> WORKER_PAGES (giveLoop xs c i idle r) w = WORKER_PAGES r w"
  by (induction idle arbitrary: i r) (auto simp: Let_def)

lemma take_chunk: "take (min (a + c) (length xs) - a) (drop a xs) = take c (drop a xs)"
proof (cases "a + c \<le> length xs")
  case True
  then show ?thesis by simp
next
  case False
  then have "min (a + c) (length xs) - a = length (drop a xs)" "length (drop a xs) \<le> c"
    by simp_all
  then show ?thesis by simp
qed

lemma giveLoop_nth:
  "distinct idle \<Longrightarrow> \<forall>w \<in> set idle. pagesOf r w = [] \<Longrightarrow> j < length idle \<Longrightarrow>
   pagesOf (giveLoop xs c i idle r) (idle ! j) = take c (drop ((i + j) * c) xs)"
proof (induction idle arbitrary: i r j)
  case Nil
  then show ?case by simp
next
  case (Cons w ws)
  define chunk where "chunk = take (min (i * c + c) (length xs) - i * c) (drop (i * c) xs)"
  define r1 where "r1 = (if length chunk > 0 then r\<lparr>WORKER_PAGES := (WORKER_PAGES r)(w \<mapsto> chunk)\<rparr> else r)"
  have step: "giveLoop xs c i (w # ws) r = giveLoop xs c (i + 1) ws r1"
    unfolding chunk_def r1_def by (simp only: giveLoop.simps Let_def)
  have chunk: "chunk = take c (drop (i * c) xs)" unfolding chunk_def by (rule take_chunk)
  have w: "pagesOf r1 w = chunk" using Cons.prems(2) by (simp add: r1_def pagesOf_def)
  have rest: "\<forall>v \<in> set ws. pagesOf r1 v = []"
    using Cons.prems(1,2) by (auto simp: r1_def pagesOf_def)
  show ?case
  proof (cases j)
    case 0
    have "w \<notin> set ws" using Cons.prems(1) by simp
    then have "pagesOf (giveLoop xs c (i + 1) ws r1) w = pagesOf r1 w"
      by (simp add: pagesOf_def giveLoop_frame)
    with 0 step w chunk show ?thesis by simp
  next
    case (Suc k)
    with Cons.prems have "distinct ws" "k < length ws" by simp_all
    from Cons.IH [OF this(1) rest this(2), of "i + 1"] Suc step show ?thesis by simp
  qed
qed

lemma concat_chunks: "concat (map (\<lambda>j. take c (drop (j * c) xs)) [0..<k]) = take (k * c) xs"
proof (induction k)
  case 0
  then show ?case by simp
next
  case (Suc k)
  have "Suc k * c = k * c + c" by simp
  then have "take (Suc k * c) xs = take (k * c) xs @ take c (drop (k * c) xs)"
    by (simp only: take_add)
  with Suc show ?case by simp
qed

lemma giveLoop_concat:
  assumes "distinct idle" "\<forall>w \<in> set idle. pagesOf r w = []"
  shows "concat (map (pagesOf (giveLoop xs c 0 idle r)) idle) = take (length idle * c) xs"
proof -
  have "map (pagesOf (giveLoop xs c 0 idle r)) idle
          = map (\<lambda>j. take c (drop (j * c) xs)) [0..<length idle]"
    using giveLoop_nth [OF assms, of _ xs c 0] by (intro nth_equalityI) simp_all
  then show ?thesis by (simp add: concat_chunks)
qed

lemma chunk_size_enough:
  assumes "0 < k"
  shows "n \<le> k * nat (ceilDiv (int n) (int k))"
proof -
  have "int n \<le> int k * ceilDiv (int n) (int k)" using assms by (intro ceilDiv_upper) simp
  moreover have "0 \<le> ceilDiv (int n) (int k)"
  proof -
    have "(- int n) div int k \<le> 0" using assms by (intro div_nonpos_pos_le0) simp_all
    then show ?thesis by (simp add: ceilDiv_def)
  qed
  ultimately have "int n \<le> int (k * nat (ceilDiv (int n) (int k)))" by simp
  then show ?thesis by (simp only: of_nat_le_iff)
qed

lemma half_length: "nat (ceilDiv (int n) 2) = (n + 1) div 2"
  unfolding ceilDiv_def by linarith

lemma not_busy_pages: "\<not> isBusy r w \<Longrightarrow> pagesOf r w = []"
  by (auto simp: isBusy_def pagesOf_def split: option.splits)

lemma busy_pages: "isBusy r w \<Longrightarrow> WORKER_PAGES r w = Some (pagesOf r w) \<and> pagesOf r w \<noteq> []"
  by (auto simp: isBusy_def pagesOf_def split: option.splits)

text \<open>What one call does, in terms of the first busy worker.\<close>

lemma reassign_idle:
  "filter (isBusy r) activeWorkers = [] \<or> filter (\<lambda>w. \<not> isBusy r w) activeWorkers = []
   \<Longrightarrow> reassignPagesFromIdleWorkers activeWorkers r = r"
  by (auto simp: reassignPagesFromIdleWorkers_def Let_def)

lemma reassign_effect:
  assumes d: "distinct activeWorkers"
    and busy: "filter (isBusy r) activeWorkers = b # bs"
    and idle: "filter (\<lambda>w. \<not> isBusy r w) activeWorkers = idle" "idle \<noteq> []"
  shows "if length (pagesOf r b) > 1
         then pagesOf (reassignPagesFromIdleWorkers activeWorkers r) b
                = take (nat (ceilDiv (int (length (pagesOf r b))) 2)) (pagesOf r b)
            \<and> (\<forall>j<length idle.
                  pagesOf (reassignPagesFromIdleWorkers activeWorkers r) (idle ! j)
                    = take (nat (ceilDiv (int (length (drop (nat (ceilDiv (int (length (pagesOf r b))) 2)) (pagesOf r b))))
                                   (int (length idle))))
                        (drop (j * nat (ceilDiv (int (length (drop (nat (ceilDiv (int (length (pagesOf r b))) 2)) (pagesOf r b))))
                                   (int (length idle))))
                           (drop (nat (ceilDiv (int (length (pagesOf r b))) 2)) (pagesOf r b))))
            \<and> concat (map (pagesOf (reassignPagesFromIdleWorkers activeWorkers r)) idle)
                = drop (nat (ceilDiv (int (length (pagesOf r b))) 2)) (pagesOf r b)
            \<and> (\<forall>w. w \<noteq> b \<and> w \<notin> set idle \<longrightarrow>
                  WORKER_PAGES (reassignPagesFromIdleWorkers activeWorkers r) w = WORKER_PAGES r w)
         else reassignPagesFromIdleWorkers activeWorkers r = r"
proof -
  define pages where "pages = pagesOf r b"
  define h where "h = nat (ceilDiv (int (length pages)) 2)"
  define removed where "removed = drop h pages"
  define c where "c = nat (ceilDiv (int (length removed)) (int (length idle)))"
  define r1 where "r1 = r\<lparr>WORKER_PAGES := (WORKER_PAGES r)(b \<mapsto> take h pages)\<rparr>"
  have "b \<in> set (filter (isBusy r) activeWorkers)" using busy by simp
  then have bb: "isBusy r b" by simp
  then have bp: "WORKER_PAGES r b = Some pages" unfolding pages_def by (simp add: busy_pages)
  have bni: "b \<notin> set idle" using bb idle(1) by auto
  have di: "distinct idle" using d idle(1) by auto
  have ie: "\<forall>w \<in> set idle. pagesOf r w = []" using idle(1) by (auto simp: not_busy_pages)
  have ie1: "\<forall>w \<in> set idle. pagesOf r1 w = []" using ie bni by (auto simp: r1_def pagesOf_def)
  show ?thesis
  proof (cases "length pages > 1")
    case False
    then show ?thesis using busy idle bp by (simp add: reassignPagesFromIdleWorkers_def pages_def [symmetric])
  next
    case True
    have r': "reassignPagesFromIdleWorkers activeWorkers r = giveLoop removed c 0 idle r1"
      using busy idle bp True
      by (simp add: reassignPagesFromIdleWorkers_def Let_def r1_def c_def removed_def h_def)
    have p1: "pagesOf (giveLoop removed c 0 idle r1) b = take h pages"
      using bni by (simp add: pagesOf_def giveLoop_frame r1_def)
    have p2: "\<forall>j<length idle. pagesOf (giveLoop removed c 0 idle r1) (idle ! j) = take c (drop (j * c) removed)"
      using giveLoop_nth [OF di ie1, of _ removed c 0] by simp
    have "0 < length idle" using idle(2) by simp
    then have "length removed \<le> length idle * c" unfolding c_def by (rule chunk_size_enough)
    then have p3: "concat (map (pagesOf (giveLoop removed c 0 idle r1)) idle) = removed"
      by (simp add: giveLoop_concat [OF di ie1])
    have p4: "\<forall>w. w \<noteq> b \<and> w \<notin> set idle \<longrightarrow> WORKER_PAGES (giveLoop removed c 0 idle r1) w = WORKER_PAGES r w"
      by (simp add: giveLoop_frame r1_def)
    from True p1 p2 p3 p4 show ?thesis
      unfolding r' unfolding c_def removed_def h_def pages_def by simp
  qed
qed


lemma mset_pages_sum: "distinct ids \<Longrightarrow> mset (concat (map f ids)) = (\<Sum>w\<in>set ids. mset (f w))"
  by (simp add: mset_concat sum_list_distinct_conv_sum_set comp_def)

lemma three_part_sum:
  fixes g :: "nat \<Rightarrow> int multiset"
  assumes "finite S" "b \<in> S" "I \<subseteq> S" "b \<notin> I"
  shows "sum g S = g b + sum g I + sum g (S - {b} - I)"
proof -
  have "sum g S = g b + sum g (S - {b})" using assms(1,2) by (rule sum.remove)
  also have "sum g (S - {b}) = sum g (S - {b} - I) + sum g I"
    using assms by (intro sum.subset_diff) auto
  finally show ?thesis by (simp add: add.assoc add.commute)
qed

lemma reassign_mset:
  assumes d: "distinct activeWorkers" and di: "distinct ids" and sub: "set activeWorkers \<subseteq> set ids"
  shows "mset (concat (map (pagesOf (reassignPagesFromIdleWorkers activeWorkers r)) ids))
           = mset (concat (map (pagesOf r) ids))"
proof (cases "filter (isBusy r) activeWorkers = [] \<or> filter (\<lambda>w. \<not> isBusy r w) activeWorkers = []")
  case True
  then show ?thesis by (simp add: reassign_idle)
next
  case False
  define idle where "idle = filter (\<lambda>w. \<not> isBusy r w) activeWorkers"
  define r' where "r' = reassignPagesFromIdleWorkers activeWorkers r"
  from False obtain b bs where busy: "filter (isBusy r) activeWorkers = b # bs"
    by (cases "filter (isBusy r) activeWorkers") auto
  from False have ine: "idle \<noteq> []" by (simp add: idle_def)
  note eff = reassign_effect [OF d busy idle_def [symmetric] ine, folded r'_def]
  show ?thesis
  proof (cases "length (pagesOf r b) > 1")
    case False
    with eff show ?thesis by (simp add: r'_def)
  next
    case True
    define h where "h = nat (ceilDiv (int (length (pagesOf r b))) 2)"
    from eff True have kept: "pagesOf r' b = take h (pagesOf r b)"
      and given: "concat (map (pagesOf r') idle) = drop h (pagesOf r b)"
      and other: "\<And>w. w \<noteq> b \<Longrightarrow> w \<notin> set idle \<Longrightarrow> WORKER_PAGES r' w = WORKER_PAGES r w"
      unfolding h_def by simp_all
    have "b \<in> set (filter (isBusy r) activeWorkers)" using busy by simp
    then have bb: "isBusy r b" and bact: "b \<in> set activeWorkers" by simp_all
    have bS: "b \<in> set ids" using bact sub by blast
    have iS: "set idle \<subseteq> set ids" using sub by (auto simp: idle_def)
    have bni: "b \<notin> set idle" using bb by (simp add: idle_def)
    have didle: "distinct idle" using d by (simp add: idle_def)
    have idle0: "(\<Sum>w\<in>set idle. mset (pagesOf r w)) = {#}"
      by (simp add: idle_def not_busy_pages)
    have idle': "(\<Sum>w\<in>set idle. mset (pagesOf r' w)) = mset (drop h (pagesOf r b))"
      using mset_pages_sum [OF didle, of "pagesOf r'"] given by simp
    have rest: "(\<Sum>w\<in>set ids - {b} - set idle. mset (pagesOf r' w))
                  = (\<Sum>w\<in>set ids - {b} - set idle. mset (pagesOf r w))"
      by (intro sum.cong refl) (simp add: pagesOf_def other)
    have "mset (take h (pagesOf r b)) + mset (drop h (pagesOf r b)) = mset (pagesOf r b)"
      by (metis append_take_drop_id mset_append)
    then have "(\<Sum>w\<in>set ids. mset (pagesOf r' w)) = (\<Sum>w\<in>set ids. mset (pagesOf r w))"
      using three_part_sum [OF _ bS iS bni, of "\<lambda>w. mset (pagesOf r' w)"]
        three_part_sum [OF _ bS iS bni, of "\<lambda>w. mset (pagesOf r w)"]
      by (simp add: idle0 idle' rest kept)
    then show ?thesis by (simp add: mset_pages_sum [OF di] r'_def)
  qed
qed

lemma reassign_frame:
  assumes w: "w \<notin> set activeWorkers"
  shows "WORKER_PAGES (reassignPagesFromIdleWorkers activeWorkers r) w = WORKER_PAGES r w"
proof (cases "filter (isBusy r) activeWorkers")
  case Nil
  then show ?thesis by (simp add: reassignPagesFromIdleWorkers_def Let_def)
next
  case (Cons b bs)
  then have "b \<in> set (filter (isBusy r) activeWorkers)" by simp
  then have "b \<in> set activeWorkers" by simp
  with w have wb: "w \<noteq> b" by auto
  have wi: "w \<notin> set (filter (\<lambda>w. \<not> isBusy r w) activeWorkers)" using w by simp
  show ?thesis using Cons wb
    by (simp add: reassignPagesFromIdleWorkers_def Let_def giveLoop_frame [OF wi] split: option.splits)
qed

lemma distinct_concat_disjoint:
  "distinct (concat (map f ids)) \<Longrightarrow> v \<in> set ids \<Longrightarrow> w \<in> set ids \<Longrightarrow> v \<noteq> w
   \<Longrightarrow> set (f v) \<inter> set (f w) = {}"
  by (induction ids) auto

text \<open>
  C5, on a list that names a page twice. Worker 1 holds \<open>[5, 5]\<close> and worker 2 is idle:
  before the step no page is in the lists of two workers, after it page 5 is in both.
\<close>

theorem rebalance_counterexample:
  "pagesOf repeatedPage 1 = [5, 5] \<and> pagesOf repeatedPage 2 = []
   \<and> pagesOf (reassignPagesFromIdleWorkers [1, 2] repeatedPage) 1 = [5]
   \<and> pagesOf (reassignPagesFromIdleWorkers [1, 2] repeatedPage) 2 = [5]"
  by code_simp

text \<open>
  C5, as the code has it. For live workers \<open>activeWorkers\<close> (without repetition) and any
  list \<open>ids\<close> of worker ids without repetition that contains them, one rebalance step
  leaves the multiset of the pages of all lists unchanged and does not touch the key of
  a worker that is not live. If beforehand no page occurs twice in the lists taken
  together, the same holds afterwards, and so no page is in the lists of two workers.
\<close>

theorem rebalance_conservation:
  assumes d: "distinct activeWorkers" and di: "distinct ids" and sub: "set activeWorkers \<subseteq> set ids"
  shows "mset (concat (map (pagesOf (reassignPagesFromIdleWorkers activeWorkers r)) ids))
           = mset (concat (map (pagesOf r) ids))
       \<and> (\<forall>w. w \<notin> set activeWorkers \<longrightarrow>
             WORKER_PAGES (reassignPagesFromIdleWorkers activeWorkers r) w = WORKER_PAGES r w)
       \<and> (distinct (concat (map (pagesOf r) ids)) \<longrightarrow>
             distinct (concat (map (pagesOf (reassignPagesFromIdleWorkers activeWorkers r)) ids))
             \<and> (\<forall>v \<in> set ids. \<forall>w \<in> set ids. v \<noteq> w \<longrightarrow>
                   set (pagesOf (reassignPagesFromIdleWorkers activeWorkers r) v)
                     \<inter> set (pagesOf (reassignPagesFromIdleWorkers activeWorkers r) w) = {}))"
proof -
  define r' where "r' = reassignPagesFromIdleWorkers activeWorkers r"
  have m: "mset (concat (map (pagesOf r') ids)) = mset (concat (map (pagesOf r) ids))"
    unfolding r'_def using d di sub by (rule reassign_mset)
  have f: "\<forall>w. w \<notin> set activeWorkers \<longrightarrow> WORKER_PAGES r' w = WORKER_PAGES r w"
    unfolding r'_def by (simp add: reassign_frame)
  have k: "distinct (concat (map (pagesOf r') ids))
           \<and> (\<forall>v \<in> set ids. \<forall>w \<in> set ids. v \<noteq> w \<longrightarrow> set (pagesOf r' v) \<inter> set (pagesOf r' w) = {})"
    if "distinct (concat (map (pagesOf r) ids))"
  proof -
    from that mset_eq_imp_distinct_iff [OF m] have "distinct (concat (map (pagesOf r') ids))"
      by simp
    then show ?thesis using distinct_concat_disjoint [of "pagesOf r'" ids] by blast
  qed
  from m f k show ?thesis unfolding r'_def by blast
qed

theorem rebalance_conservation_witness:
  "distinct [1, 2, 3, 4 :: nat] \<and> distinct [1, 2, 3, 4, 5 :: nat]
   \<and> set [1, 2, 3, 4 :: nat] \<subseteq> set [1, 2, 3, 4, 5]
   \<and> distinct (concat (map (pagesOf ninePages) [1, 2, 3, 4, 5]))
   \<and> mset (concat (map (pagesOf (reassignPagesFromIdleWorkers [1, 2, 3, 4] ninePages)) [1, 2, 3, 4, 5]))
       = mset (concat (map (pagesOf ninePages) [1, 2, 3, 4, 5]))
   \<and> distinct (concat (map (pagesOf (reassignPagesFromIdleWorkers [1, 2, 3, 4] ninePages)) [1, 2, 3, 4, 5]))"
proof -
  have d: "distinct [1, 2, 3, 4 :: nat]" by simp
  have di: "distinct [1, 2, 3, 4, 5 :: nat]" by simp
  have sub: "set [1, 2, 3, 4 :: nat] \<subseteq> set [1, 2, 3, 4, 5]" by simp
  have pre: "distinct (concat (map (pagesOf ninePages) [1, 2, 3, 4, 5]))" by code_simp
  note t = rebalance_conservation [OF d di sub, of ninePages]
  have c1: "mset (concat (map (pagesOf (reassignPagesFromIdleWorkers [1, 2, 3, 4] ninePages)) [1, 2, 3, 4, 5]))
       = mset (concat (map (pagesOf ninePages) [1, 2, 3, 4, 5]))"
    using t by (rule conjunct1)
  have c2: "distinct (concat (map (pagesOf (reassignPagesFromIdleWorkers [1, 2, 3, 4] ninePages)) [1, 2, 3, 4, 5]))"
    using t pre by blast
  show ?thesis by (intro conjI d di sub pre c1 c2)
qed

text \<open>
  C6, on a single busy worker with three pages and one idle worker: the busy worker
  keeps two pages (\<open>ceil(3 / 2)\<close>) and one page is removed, not two.
\<close>

theorem rebalance_amount_counterexample:
  "filter (isBusy threePages) [1, 2] = [1] \<and> filter (\<lambda>w. \<not> isBusy threePages w) [1, 2] = [2]
   \<and> pagesOf threePages 1 = [1, 2, 3] \<and> nat (ceilDiv (int (length [1, 2, 3 :: int])) 2) = 2
   \<and> pagesOf (reassignPagesFromIdleWorkers [1, 2] threePages) 1 = [1, 2]
   \<and> pagesOf (reassignPagesFromIdleWorkers [1, 2] threePages) 2 = [3]"
  by code_simp

text \<open>
  C6, as the code has it. When the live workers split into a non-empty busy group and a
  non-empty idle group, the step picks a source in the busy group, with \<open>n\<close> pages. For
  \<open>n > 1\<close> the source keeps its first \<open>ceil(n / 2)\<close> pages, the other \<open>floor(n / 2)\<close>
  are removed, and the idle worker at position \<open>j\<close> gets the pages of the removed list
  from index \<open>j * c\<close> up to \<open>c\<close> of them, with \<open>c = ceil(removed / idleCount)\<close>; together
  the idle workers get the removed list, and no other key changes. For \<open>n = 1\<close> nothing
  changes.
\<close>

theorem rebalance_amount:
  assumes d: "distinct activeWorkers"
    and busy: "filter (isBusy r) activeWorkers = busy" "busy \<noteq> []"
    and idle: "filter (\<lambda>w. \<not> isBusy r w) activeWorkers = idle" "idle \<noteq> []"
  shows "\<exists>src \<in> set busy.
           (let pages = pagesOf r src;
                kept = nat (ceilDiv (int (length pages)) 2);
                removed = drop kept pages;
                chunk = nat (ceilDiv (int (length removed)) (int (length idle)));
                r' = reassignPagesFromIdleWorkers activeWorkers r
            in if length pages > 1
               then pagesOf r' src = take kept pages
                    \<and> length (pagesOf r' src) = (length pages + 1) div 2
                    \<and> length removed = length pages div 2
                    \<and> (\<forall>j<length idle. pagesOf r' (idle ! j) = take chunk (drop (j * chunk) removed))
                    \<and> concat (map (pagesOf r') idle) = removed
                    \<and> (\<forall>w. w \<noteq> src \<and> w \<notin> set idle \<longrightarrow> WORKER_PAGES r' w = WORKER_PAGES r w)
               else r' = r)"
proof -
  from busy obtain b bs where b: "filter (isBusy r) activeWorkers = b # bs" and bb: "b \<in> set busy"
    by (cases busy) auto
  note eff = reassign_effect [OF d b idle]
  have l1: "length (take (nat (ceilDiv (int n) 2)) (xs :: int list)) = (n + 1) div 2" if "length xs = n" for n xs
    using that by (simp add: half_length)
  have l2: "length (drop (nat (ceilDiv (int n) 2)) (xs :: int list)) = n div 2" if "length xs = n" for n xs
    using that by (simp add: half_length)
  show ?thesis
  proof (rule bexI [OF _ bb], cases "length (pagesOf r b) > 1")
    case True
    with eff show "let pages = pagesOf r b;
                kept = nat (ceilDiv (int (length pages)) 2);
                removed = drop kept pages;
                chunk = nat (ceilDiv (int (length removed)) (int (length idle)));
                r' = reassignPagesFromIdleWorkers activeWorkers r
            in if length pages > 1
               then pagesOf r' b = take kept pages
                    \<and> length (pagesOf r' b) = (length pages + 1) div 2
                    \<and> length removed = length pages div 2
                    \<and> (\<forall>j<length idle. pagesOf r' (idle ! j) = take chunk (drop (j * chunk) removed))
                    \<and> concat (map (pagesOf r') idle) = removed
                    \<and> (\<forall>w. w \<noteq> b \<and> w \<notin> set idle \<longrightarrow> WORKER_PAGES r' w = WORKER_PAGES r w)
               else r' = r"
      unfolding Let_def using l1 [OF refl, of "pagesOf r b"] l2 [OF refl, of "pagesOf r b"]
      by (simp only: if_True) simp
  next
    case False
    with eff show "let pages = pagesOf r b;
                kept = nat (ceilDiv (int (length pages)) 2);
                removed = drop kept pages;
                chunk = nat (ceilDiv (int (length removed)) (int (length idle)));
                r' = reassignPagesFromIdleWorkers activeWorkers r
            in if length pages > 1
               then pagesOf r' b = take kept pages
                    \<and> length (pagesOf r' b) = (length pages + 1) div 2
                    \<and> length removed = length pages div 2
                    \<and> (\<forall>j<length idle. pagesOf r' (idle ! j) = take chunk (drop (j * chunk) removed))
                    \<and> concat (map (pagesOf r') idle) = removed
                    \<and> (\<forall>w. w \<noteq> b \<and> w \<notin> set idle \<longrightarrow> WORKER_PAGES r' w = WORKER_PAGES r w)
               else r' = r"
      unfolding Let_def by (simp only: if_False)
  qed
qed

theorem rebalance_amount_witness:
  "distinct [1, 2, 3, 4 :: nat]
   \<and> filter (isBusy ninePages) [1, 2, 3, 4] = [1] \<and> [1 :: nat] \<noteq> []
   \<and> filter (\<lambda>w. \<not> isBusy ninePages w) [1, 2, 3, 4] = [2, 3, 4] \<and> [2, 3, 4 :: nat] \<noteq> []
   \<and> (\<exists>src \<in> set [1].
           (let pages = pagesOf ninePages src;
                kept = nat (ceilDiv (int (length pages)) 2);
                removed = drop kept pages;
                chunk = nat (ceilDiv (int (length removed)) (int (length [2, 3, 4 :: nat])));
                r' = reassignPagesFromIdleWorkers [1, 2, 3, 4] ninePages
            in if length pages > 1
               then pagesOf r' src = take kept pages
                    \<and> length (pagesOf r' src) = (length pages + 1) div 2
                    \<and> length removed = length pages div 2
                    \<and> (\<forall>j<length [2, 3, 4 :: nat].
                          pagesOf r' ([2, 3, 4] ! j) = take chunk (drop (j * chunk) removed))
                    \<and> concat (map (pagesOf r') [2, 3, 4]) = removed
                    \<and> (\<forall>w. w \<noteq> src \<and> w \<notin> set [2, 3, 4] \<longrightarrow> WORKER_PAGES r' w = WORKER_PAGES ninePages w)
               else r' = ninePages))"
proof -
  have d: "distinct [1, 2, 3, 4 :: nat]" by simp
  have b1: "filter (isBusy ninePages) [1, 2, 3, 4] = [1]" by code_simp
  have b2: "[1 :: nat] \<noteq> []" by simp
  have i1: "filter (\<lambda>w. \<not> isBusy ninePages w) [1, 2, 3, 4] = [2, 3, 4]" by code_simp
  have i2: "[2, 3, 4 :: nat] \<noteq> []" by simp
  note t = rebalance_amount [OF d b1 b2 i1 i2]
  show ?thesis by (intro conjI d b1 b2 i1 i2 t)
qed

section \<open>The page loop of the Product worker\<close>

lemma retry_no_tab: "tabFor env pageNum = NoTab \<Longrightarrow> retryLoop env workerId pageNum 0 pages st = (pages, st)"
  by (subst retryLoop.simps) (simp add: maxRetries_def)

lemma retry_extracted:
  "tabFor env pageNum = Extracted products \<Longrightarrow>
   retryLoop env workerId pageNum 0 pages st = processExtracted env workerId pageNum products pages st"
  by (subst retryLoop.simps) (simp add: maxRetries_def)

text \<open>
  A first page without a tab stays the first page: when the stored list is the local
  one and is in the order of \<open>sort()\<close>, the outer loop does not end.
\<close>

lemma head_without_tab_stays:
  assumes tab: "tabFor env p = NoTab"
    and stored: "WORKER_PAGES (redisOf st) workerId = Some (p # ps)"
    and sorted: "jsSort (p # ps) = p # ps"
  shows "crawlLoop rounds env workerId (p # ps) st = None"
proof (induction rounds)
  case 0
  show ?case by (subst crawlLoop.simps) simp
next
  case (Suc rounds)
  have "syncPages (redisOf st) workerId (p # ps) = p # ps"
    by (simp add: syncPages_def stored sorted)
  with Suc show ?case
    by (subst crawlLoop.simps) (simp add: retry_no_tab [OF tab])
qed

lemma missing_tab: "tabFor missingTabEnv 7 = NoTab"
  by code_simp

lemma missing_loop: "crawlLoop rounds missingTabEnv 1 [7, 8] missingTabState = None"
proof -
  have stored: "WORKER_PAGES (redisOf missingTabState) 1 = Some [7, 8]" by code_simp
  have sorted: "jsSort [7, 8] = [7, 8]" by code_simp
  from missing_tab stored sorted show ?thesis by (rule head_without_tab_stays)
qed

text \<open>
  C7, on a list whose first page has no tab. Worker 1 is assigned pages 7 and 8 and only
  page 8 has a tab. The retry loop returns with the list and the state as they were, so
  page 7 is still the first page of the next round; however many rounds are allowed,
  the outer loop is still running, and page 8 is never reached.
\<close>

theorem missing_tab_retried_forever:
  "WORKER_PAGES (redisOf missingTabState) 1 = Some [7, 8] \<and> tabFor missingTabEnv 7 = NoTab
   \<and> retryLoop missingTabEnv 1 7 0 [7, 8] missingTabState = ([7, 8], missingTabState)
   \<and> crawlLoop rounds missingTabEnv 1 [7, 8] missingTabState = None
   \<and> crawlAllPages rounds missingTabEnv 1 missingTabState = None"
proof -
  have a: "WORKER_PAGES (redisOf missingTabState) 1 = Some [7, 8]" by code_simp
  have t: "TOTAL_PAGES (redisOf missingTabState) = Some ''10''" by code_simp
  have p: "parseInt ''10'' = Some 10" by code_simp
  have h: "hasContext missingTabEnv" by code_simp
  have "crawlAllPages rounds missingTabEnv 1 missingTabState = None"
    by (simp add: crawlAllPages_def a t p h missing_loop del: One_nat_def)
  with a missing_tab missing_loop retry_no_tab [OF missing_tab] show ?thesis by simp
qed

section \<open>Delete before insert\<close>

lemma asinsChanged_iff:
  "asinsChanged existingProducts products
     \<longleftrightarrow> set (map asin existingProducts) \<noteq> set (map asin products)"
proof -
  have "set (map asin products) = set (map asin existingProducts)"
    if "card (set (map asin existingProducts)) = card (set (map asin products))"
      and "set (map asin products) \<subseteq> set (map asin existingProducts)"
    using that by (intro card_subset_eq) simp_all
  then show ?thesis unfolding asinsChanged_def Let_def by (auto simp del: set_map)
qed

lemma storeProducts_calls:
  "dbCalls (storeProducts env products st)
     = dbCalls st @ concat (map (\<lambda>p. [UpsertProduct p,
          RecordCrawlEvent (asin p) (if upsertThrows env p then Failed else Success)]) products)"
  by (induction products arbitrary: st) auto

lemma storeProducts_table:
  "productTable (storeProducts env products st)
     = foldl (\<lambda>table p. recordCrawlEvent
                 (if upsertThrows env p then table else upsertProduct table p) p)
         (productTable st) products"
  by (induction products arbitrary: st) auto

text \<open>After a successful upsert the row exists, and the event adds none.\<close>

lemma recordCrawlEvent_after_upsert:
  "recordCrawlEvent (upsertProduct table p) p = upsertProduct table p"
proof -
  have "list_ex (\<lambda>q. asin q = asin p) (upsertProduct table p)"
    by (auto simp: upsertProduct_def list_ex_iff)
  then show ?thesis by (simp add: recordCrawlEvent_def)
qed

text \<open>
  A rejected upsert of an identifier that is not stored leaves the placeholder row: the
  table of page 3 ends with A as extracted and B as \<open>"Pending crawl"\<close>.
\<close>

lemma rejected_upsert_leaves_placeholder:
  "map (\<lambda>p. (asin p, title p))
     (productTable (snd (retryLoop rejectingEnv 1 3 0 [3] changedState)))
     = [(''B00000000A'', []), (''B00000000B'', ''Pending crawl'')]"
  by code_simp

lemma storeProducts_redis: "redisOf (storeProducts env products st) = redisOf st"
  by (induction products arbitrary: st) auto

text \<open>
  C9. The test of the code (the sizes differ, or an extracted identifier is not among the
  stored ones) holds exactly when the extracted identifiers and the identifiers stored
  for the page differ as sets. For a page whose tab is found and extracted, the
  database calls are: the read of the page's rows, then the deletion of the page's rows
  exactly when the two sets differ, then one upsert and one audit event per extracted
  product; the table is the stored one, without the page's rows exactly when the sets
  differ, with each product upserted or, when its upsert is rejected, with the
  placeholder row of its audit event.
\<close>

theorem conditional_delete:
  assumes tab: "tabFor env pageNum = Extracted products"
  shows "(asinsChanged (getProductsByPage (productTable st) pageNum) products
            \<longleftrightarrow> set (map asin (getProductsByPage (productTable st) pageNum)) \<noteq> set (map asin products))
       \<and> dbCalls (snd (retryLoop env workerId pageNum 0 pagesToProcess st))
           = dbCalls st @ [GetProductsByPage pageNum]
             @ (if set (map asin (getProductsByPage (productTable st) pageNum)) \<noteq> set (map asin products)
                then [DeleteProductsByPageNumber pageNum] else [])
             @ concat (map (\<lambda>p. [UpsertProduct p,
                  RecordCrawlEvent (asin p) (if upsertThrows env p then Failed else Success)]) products)
       \<and> productTable (snd (retryLoop env workerId pageNum 0 pagesToProcess st))
           = foldl (\<lambda>table p. recordCrawlEvent
                       (if upsertThrows env p then table else upsertProduct table p) p)
               (if set (map asin (getProductsByPage (productTable st) pageNum)) \<noteq> set (map asin products)
                then deleteProductsByPageNumber (productTable st) pageNum else productTable st)
               products"
  unfolding retry_extracted [OF tab] asinsChanged_iff [symmetric]
  by (simp add: processExtracted_def Let_def storeProducts_calls storeProducts_table)

theorem conditional_delete_witness:
  "tabFor changedEnv 3 = Extracted [productOn ''B00000000A'' 3, productOn ''B00000000B'' 3]
   \<and> set (map asin (getProductsByPage (productTable changedState) 3))
       \<noteq> set (map asin [productOn ''B00000000A'' 3, productOn ''B00000000B'' 3])
   \<and> asinsChanged (getProductsByPage (productTable changedState) 3)
         [productOn ''B00000000A'' 3, productOn ''B00000000B'' 3]"
proof -
  have tab: "tabFor changedEnv 3 = Extracted [productOn ''B00000000A'' 3, productOn ''B00000000B'' 3]"
    by code_simp
  have ne: "set (map asin (getProductsByPage (productTable changedState) 3))
       \<noteq> set (map asin [productOn ''B00000000A'' 3, productOn ''B00000000B'' 3])"
    by code_simp
  have c: "asinsChanged (getProductsByPage (productTable changedState) 3)
         [productOn ''B00000000A'' 3, productOn ''B00000000B'' 3]"
    using conditional_delete [OF tab, of changedState] ne by blast
  show ?thesis by (intro conjI tab ne c)
qed

section \<open>The crawl trigger\<close>

lemma crawl_nothing_assigned:
  "WORKER_PAGES (redisOf st) workerId = None \<or> WORKER_PAGES (redisOf st) workerId = Some []
   \<Longrightarrow> crawlAllPages rounds env workerId st = Some st"
  by (auto simp: crawlAllPages_def split: option.splits)

lemma processExtracted_trigger:
  "CRAWL_TRIGGER (redisOf (snd (processExtracted env workerId pageNum products pages st)))
     = CRAWL_TRIGGER (redisOf st)"
  by (simp add: processExtracted_def Let_def storeProducts_redis)

lemma retryLoop_trigger:
  "CRAWL_TRIGGER (redisOf (snd (retryLoop env workerId pageNum retryCount pages st)))
     = CRAWL_TRIGGER (redisOf st)"
proof (induction env workerId pageNum retryCount pages st rule: retryLoop.induct)
  case (1 env workerId pageNum retryCount pagesToProcess st)
  show ?case
  proof (cases "tabFor env pageNum")
    case NoTab
    then show ?thesis by (subst retryLoop.simps) simp
  next
    case ExtractionThrows
    with "1.IH" show ?thesis by (subst retryLoop.simps) simp
  next
    case (Extracted products)
    then show ?thesis by (subst retryLoop.simps) (simp add: processExtracted_trigger)
  qed
qed

lemma crawlLoop_trigger:
  "crawlLoop rounds env workerId pages st = Some (pages', st')
   \<Longrightarrow> CRAWL_TRIGGER (redisOf st') = CRAWL_TRIGGER (redisOf st)"
proof (induction rounds arbitrary: pages st)
  case 0
  then show ?case by (subst (asm) crawlLoop.simps) (simp split: if_splits)
next
  case (Suc rounds)
  show ?case
  proof (cases "length pages > 0")
    case False
    with Suc.prems show ?thesis by (subst (asm) crawlLoop.simps) simp
  next
    case True
    show ?thesis
    proof (cases "syncPages (redisOf st) workerId pages")
      case Nil
      with True Suc.prems show ?thesis by (subst (asm) crawlLoop.simps) simp
    next
      case (Cons pageNum others)
      obtain pages1 st1 where r: "retryLoop env workerId pageNum 0 (pageNum # others) st = (pages1, st1)"
        by (cases "retryLoop env workerId pageNum 0 (pageNum # others) st") auto
      with True Cons Suc.prems have "crawlLoop rounds env workerId pages1 st1 = Some (pages', st')"
        by (subst (asm) crawlLoop.simps) simp
      then have "CRAWL_TRIGGER (redisOf st') = CRAWL_TRIGGER (redisOf st1)" by (rule Suc.IH)
      moreover have "CRAWL_TRIGGER (redisOf st1) = CRAWL_TRIGGER (redisOf st)"
        using retryLoop_trigger [of env workerId pageNum 0 "pageNum # others" st] r by simp
      ultimately show ?thesis by simp
    qed
  qed
qed

lemma crawlAllPages_trigger:
  "crawlAllPages rounds env workerId st = Some st'
   \<Longrightarrow> CRAWL_TRIGGER (redisOf st') = CRAWL_TRIGGER (redisOf st)"
  using crawlLoop_trigger [of rounds env workerId _ st]
  by (fastforce simp: crawlAllPages_def split: option.splits if_splits)

text \<open>
  C10. A Product worker that polls with no non-empty page list and sees the trigger at
  \<open>"1"\<close> runs the crawl on the state in which the trigger key is already deleted; a crawl
  never writes the key, so it is absent when the poll returns. With no list assigned the
  crawl returns at once, and a poll of any other Product worker without a list then
  finds no trigger and does nothing.
\<close>

theorem crawl_trigger_consumed:
  assumes idle: "WORKER_PAGES (redisOf st) workerId = None \<or> WORKER_PAGES (redisOf st) workerId = Some []"
    and trig: "CRAWL_TRIGGER (redisOf st) = Some ''1''"
  shows "checkAndCrawlIfNeeded rounds env workerId st
           = crawlAllPages rounds env workerId (st\<lparr>redisOf := (redisOf st)\<lparr>CRAWL_TRIGGER := None\<rparr>\<rparr>)
       \<and> (\<forall>st'. checkAndCrawlIfNeeded rounds env workerId st = Some st'
             \<longrightarrow> CRAWL_TRIGGER (redisOf st') = None)
       \<and> checkAndCrawlIfNeeded rounds env workerId st
           = Some (st\<lparr>redisOf := (redisOf st)\<lparr>CRAWL_TRIGGER := None\<rparr>\<rparr>)
       \<and> (\<forall>other rounds' env'.
             WORKER_PAGES (redisOf st) other = None \<or> WORKER_PAGES (redisOf st) other = Some []
             \<longrightarrow> checkAndCrawlIfNeeded rounds' env' other (st\<lparr>redisOf := (redisOf st)\<lparr>CRAWL_TRIGGER := None\<rparr>\<rparr>)
                   = Some (st\<lparr>redisOf := (redisOf st)\<lparr>CRAWL_TRIGGER := None\<rparr>\<rparr>))"
proof -
  define st1 where "st1 = st\<lparr>redisOf := (redisOf st)\<lparr>CRAWL_TRIGGER := None\<rparr>\<rparr>"
  have c1: "checkAndCrawlIfNeeded rounds env workerId st = crawlAllPages rounds env workerId st1"
    using idle trig by (auto simp: checkAndCrawlIfNeeded_def st1_def)
  have c2: "CRAWL_TRIGGER (redisOf st') = None"
    if "checkAndCrawlIfNeeded rounds env workerId st = Some st'" for st'
    using crawlAllPages_trigger [of rounds env workerId st1 st'] that c1 by (simp add: st1_def)
  have "WORKER_PAGES (redisOf st1) workerId = None \<or> WORKER_PAGES (redisOf st1) workerId = Some []"
    using idle by (simp add: st1_def)
  then have c3: "crawlAllPages rounds env workerId st1 = Some st1" by (rule crawl_nothing_assigned)
  have c4: "checkAndCrawlIfNeeded rounds' env' other st1 = Some st1"
    if "WORKER_PAGES (redisOf st) other = None \<or> WORKER_PAGES (redisOf st) other = Some []"
    for other rounds' env'
    using that by (auto simp: checkAndCrawlIfNeeded_def st1_def)
  from c1 c2 c3 c4 show ?thesis unfolding st1_def by simp
qed

theorem crawl_trigger_consumed_witness:
  "(WORKER_PAGES (redisOf triggerState) 1 = None \<or> WORKER_PAGES (redisOf triggerState) 1 = Some [])
   \<and> CRAWL_TRIGGER (redisOf triggerState) = Some ''1''
   \<and> checkAndCrawlIfNeeded 5 missingTabEnv 1 triggerState
       = Some (triggerState\<lparr>redisOf := (redisOf triggerState)\<lparr>CRAWL_TRIGGER := None\<rparr>\<rparr>)"
proof -
  have idle: "WORKER_PAGES (redisOf triggerState) 1 = None \<or> WORKER_PAGES (redisOf triggerState) 1 = Some []"
    by code_simp
  have trig: "CRAWL_TRIGGER (redisOf triggerState) = Some ''1''" by code_simp
  have c: "checkAndCrawlIfNeeded 5 missingTabEnv 1 triggerState
       = Some (triggerState\<lparr>redisOf := (redisOf triggerState)\<lparr>CRAWL_TRIGGER := None\<rparr>\<rparr>)"
    using crawl_trigger_consumed [OF idle trig, of 5 missingTabEnv]
    by (rule conjunct1 [OF conjunct2 [OF conjunct2]])
  show ?thesis by (intro conjI idle trig c)
qed

end
